theory Spec2Isabelle
  imports Complex_Main "HOL-Library.Word" "HOL-Library.Log_Nat"
begin

section \<open>The evaluation route: \<open>src/app/api/route.ts\<close>\<close>

text \<open>
  The route handler \<open>POST\<close> validates a submission, cleans and segments the question
  block, asks a language model for per-question evaluations, digs a JSON array out of the
  answer and aggregates it into a report. Each stage of the handler is embedded below as a
  function of its own, named after the binding it has in the source.
\<close>

subsection \<open>JavaScript strings\<close>

text \<open>
  A JavaScript string is a sequence of UTF-16 code units; \<open>length\<close>, \<open>trim\<close>, \<open>split\<close>
  and regular expressions without the \<open>u\<close> flag all work on code units. The glyphs folded
  by \<open>sanitize\<close> (U+2022, U+2018, U+2019, U+201C, U+201D) are single code units.
\<close>

type_synonym code_unit = "16 word"
type_synonym jsstring = "code_unit list"

definition ascii :: "string \<Rightarrow> jsstring" where
  "ascii s = map of_char s"

subsection \<open>Sanitizer (lines 27-28)\<close>

text \<open>
  \<^verbatim>\<open>txt.replace(/<U+2022>/g, "-").replace(/[<U+2018><U+2019>]/g, "'").replace(/[<U+201C><U+201D>]/g, '"')\<close>

  Each pattern matches exactly one code unit, so a global replace is a map over the code
  units of the string.
\<close>

definition replace_units :: "(code_unit \<Rightarrow> bool) \<Rightarrow> code_unit \<Rightarrow> jsstring \<Rightarrow> jsstring" where
  "replace_units p r txt = map (\<lambda>c. if p c then r else c) txt"

definition sanitize :: "jsstring \<Rightarrow> jsstring" where
  "sanitize txt =
     replace_units (\<lambda>c. c = 0x201C \<or> c = 0x201D) 0x22
       (replace_units (\<lambda>c. c = 0x2018 \<or> c = 0x2019) 0x27
         (replace_units (\<lambda>c. c = 0x2022) 0x2D txt))"

text \<open>What the three replacements do to one code unit.\<close>

definition fold_glyph :: "code_unit \<Rightarrow> code_unit" where
  "fold_glyph c =
     (if c = 0x2022 then 0x2D
      else if c = 0x2018 \<or> c = 0x2019 then 0x27
      else if c = 0x201C \<or> c = 0x201D then 0x22
      else c)"

subsection \<open>White space and \<open>trim\<close>\<close>

text \<open>
  The class \<open>\s\<close> of a regular expression and the characters removed by
  \<open>String.prototype.trim\<close> are the same set: ECMAScript's WhiteSpace and LineTerminator
  code points (TAB, LF, VT, FF, CR, SP, NBSP, U+1680, U+2000 to U+200A, LS, PS, U+202F,
  U+205F, U+3000 and the byte order mark).
\<close>

definition is_space :: "code_unit \<Rightarrow> bool" where
  "is_space c \<longleftrightarrow>
     c = 0x09 \<or> c = 0x0A \<or> c = 0x0B \<or> c = 0x0C \<or> c = 0x0D \<or> c = 0x20 \<or> c = 0xA0
     \<or> c = 0x1680 \<or> (0x2000 \<le> c \<and> c \<le> 0x200A) \<or> c = 0x2028 \<or> c = 0x2029
     \<or> c = 0x202F \<or> c = 0x205F \<or> c = 0x3000 \<or> c = 0xFEFF"

definition trim :: "jsstring \<Rightarrow> jsstring" where
  "trim s = rev (dropWhile is_space (rev (dropWhile is_space s)))"

subsection \<open>Segmenter (lines 30-33)\<close>

text \<open>
  \<^verbatim>\<open>set1.split(/\n\s*\n/).map(sanitize).filter((q) => q.trim().length > 0)\<close>

  \<open>spaces_then_newline\<close> is the tail \<open>\s*\n\<close> of the separator pattern, matched at the
  start of a string the way a backtracking matcher does: the star first takes the code unit
  (when it is white space) and the rest of the pattern is tried on what follows; when that
  fails, the star gives the code unit back and \<open>\n\<close> has to match it. The result is the
  number of code units matched.
\<close>

fun spaces_then_newline :: "jsstring \<Rightarrow> nat option" where
  "spaces_then_newline [] = None"
| "spaces_then_newline (c # cs) =
     (case (if is_space c then spaces_then_newline cs else None) of
        Some k \<Rightarrow> Some (Suc k)
      | None \<Rightarrow> if c = 0x0A then Some 1 else None)"

text \<open>The whole pattern \<open>\n\s*\n\<close> matched at the start of a string.\<close>

definition blank_line_at :: "jsstring \<Rightarrow> nat option" where
  "blank_line_at s =
     (case s of
        [] \<Rightarrow> None
      | c # cs \<Rightarrow> if c = 0x0A then map_option Suc (spaces_then_newline cs) else None)"

text \<open>
  \<open>String.prototype.split\<close> with a regular expression: the text is scanned from the left;
  where the pattern matches, the chunk read so far is closed and the scan goes on after the
  match; elsewhere the code unit joins the chunk. The chunk open at the end of the text is
  the last element (so the empty text splits into one empty chunk). The pattern never
  matches the empty string, so the rule of \<open>split\<close> for empty matches never applies.
\<close>

function split_blank :: "jsstring \<Rightarrow> jsstring \<Rightarrow> jsstring list" where
  "split_blank chunk [] = [chunk]"
| "split_blank chunk (c # cs) =
     (case blank_line_at (c # cs) of
        Some e \<Rightarrow> chunk # split_blank [] (drop e (c # cs))
      | None \<Rightarrow> split_blank (chunk @ [c]) cs)"
  by pat_completeness auto
termination
proof (relation "measure (\<lambda>(chunk, s). length s)")
  show "wf (measure (\<lambda>(chunk, s). length s))" by simp
next
  fix chunk :: jsstring and c :: code_unit and cs :: jsstring and e :: nat
  assume "blank_line_at (c # cs) = Some e"
  then have "0 < e" by (auto simp: blank_line_at_def split: if_splits)
  then show "(([], drop e (c # cs)), (chunk, c # cs)) \<in> measure (\<lambda>(chunk, s). length s)"
    by simp
next
  fix chunk :: jsstring and c :: code_unit and cs :: jsstring
  show "((chunk @ [c], cs), (chunk, c # cs)) \<in> measure (\<lambda>(chunk, s). length s)"
    by simp
qed

definition questions :: "jsstring \<Rightarrow> jsstring list" where
  "questions set1 =
     filter (\<lambda>q. length (trim q) > 0) (map sanitize (split_blank [] set1))"

subsection \<open>Response extractor (lines 72-78)\<close>

text \<open>
  \<^verbatim>\<open>raw = raw.replace(/```json/gi, "").replace(/```/g, "").trim();\<close>

  The opening fence is matched without regard to case. Without the \<open>u\<close> flag two code
  units match when their upper-case forms agree, and no code unit outside ASCII has
  \<open>J\<close>, \<open>S\<close>, \<open>O\<close> or \<open>N\<close> as its canonical form, so each of the four letters matches
  itself and its capital (32 below it) only.
\<close>

definition fence_json_at :: "jsstring \<Rightarrow> bool" where
  "fence_json_at s \<longleftrightarrow>
     7 \<le> length s \<and> take 3 s = [0x60, 0x60, 0x60]
     \<and> list_all2 (\<lambda>p c. c = p \<or> c = p - 0x20) (ascii ''json'') (take 4 (drop 3 s))"

fun remove_fence_json :: "jsstring \<Rightarrow> jsstring" where
  "remove_fence_json [] = []"
| "remove_fence_json (c # cs) =
     (if fence_json_at (c # cs) then remove_fence_json (drop 6 cs)
      else c # remove_fence_json cs)"

definition fence_at :: "jsstring \<Rightarrow> bool" where
  "fence_at s \<longleftrightarrow> take 3 s = [0x60, 0x60, 0x60]"

fun remove_fence :: "jsstring \<Rightarrow> jsstring" where
  "remove_fence [] = []"
| "remove_fence (c # cs) =
     (if fence_at (c # cs) then remove_fence (drop 2 cs) else c # remove_fence cs)"

definition strip_fences :: "jsstring \<Rightarrow> jsstring" where
  "strip_fences raw = trim (remove_fence (remove_fence_json raw))"

text \<open>
  \<^verbatim>\<open>const match = raw.match(/\[[\s\S]*\]/); if (match) { raw = match[0]; }\<close>

  \<open>any_then_bracket\<close> is the tail \<open>[\s\S]*\]\<close> of the pattern matched at the start of a
  string, again as a backtracking matcher runs it: the star takes every code unit it can
  and gives them back one at a time until \<open>]\<close> matches. \<open>match_array\<close> tries the start
  positions from the left, as \<open>String.prototype.match\<close> does, and yields the matched
  text (\<open>match[0]\<close>) or \<open>None\<close> for \<open>null\<close>.
\<close>

fun any_then_bracket :: "jsstring \<Rightarrow> nat option" where
  "any_then_bracket [] = None"
| "any_then_bracket (c # cs) =
     (case any_then_bracket cs of
        Some k \<Rightarrow> Some (Suc k)
      | None \<Rightarrow> if c = 0x5D then Some 1 else None)"

fun match_array :: "jsstring \<Rightarrow> jsstring option" where
  "match_array [] = None"
| "match_array (c # cs) =
     (case (if c = 0x5B then any_then_bracket cs else None) of
        Some k \<Rightarrow> Some (c # take k cs)
      | None \<Rightarrow> match_array cs)"

definition extract_array :: "jsstring \<Rightarrow> jsstring" where
  "extract_array raw =
     (let raw' = strip_fences raw
      in case match_array raw' of Some m \<Rightarrow> m | None \<Rightarrow> raw')"

subsection \<open>JavaScript numbers\<close>

text \<open>
  A JavaScript number is an IEEE 754 double: a finite value \<open>m * 2^e\<close> with an integer
  \<open>m\<close> of magnitude below \<open>2^53\<close> and \<open>-1074 \<le> e \<le> 971\<close>, an infinity, or \<open>NaN\<close>. The model
  keeps a finite double as the rational number it denotes. The two zeros are the one value
  \<open>Num 0\<close>: the route divides by the length of an array only, which is never \<open>-0\<close>, and
  \<open>JSON.stringify\<close> writes \<open>-0\<close> as \<open>0\<close>.
\<close>

datatype jsnum = Num rat | NaN | PosInfinity | NegInfinity

text \<open>
  Every arithmetic operation rounds its exact result to the nearest double, a tie going to
  the double with the even significand. For \<open>x \<noteq> 0\<close>, \<open>exponent x\<close> is the integer \<open>e\<close>
  with \<open>2^e \<le> |x| < 2^(e+1)\<close>, found from the bit lengths of numerator and denominator.
  The doubles around \<open>x\<close> are the multiples of \<open>2^(e-52)\<close>, and below \<open>2^(-1022)\<close> the
  multiples of \<open>2^(-1074)\<close>. A result that reaches \<open>2^1024\<close> after rounding is an infinity.
\<close>

definition exponent :: "rat \<Rightarrow> int" where
  "exponent x =
     (let (p, q) = quotient_of \<bar>x\<bar>;
          d = bitlen p - bitlen q
      in if 2 powi d \<le> \<bar>x\<bar> then d else d - 1)"

definition round_half_even :: "rat \<Rightarrow> int" where
  "round_half_even r =
     (let f = \<lfloor>r\<rfloor>; d = r - of_int f
      in if d < 1 / 2 then f
         else if 1 / 2 < d then f + 1
         else if even f then f else f + 1)"

definition round_double :: "rat \<Rightarrow> rat" where
  "round_double x =
     (if x = 0 then 0
      else (let u = 2 powi (max (exponent x) (- 1022) - 52)
            in of_int (round_half_even (x / u)) * u))"

definition to_Number :: "rat \<Rightarrow> jsnum" where
  "to_Number x =
     (let y = round_double x
      in if 2 ^ 1024 \<le> \<bar>y\<bar> then (if 0 < x then PosInfinity else NegInfinity) else Num y)"

text \<open>\<open>x + y\<close>; the sum of opposite infinities is \<open>NaN\<close>.\<close>

fun js_plus :: "jsnum \<Rightarrow> jsnum \<Rightarrow> jsnum" where
  "js_plus (Num x) (Num y) = to_Number (x + y)"
| "js_plus NaN y = NaN"
| "js_plus x NaN = NaN"
| "js_plus PosInfinity NegInfinity = NaN"
| "js_plus NegInfinity PosInfinity = NaN"
| "js_plus PosInfinity y = PosInfinity"
| "js_plus x PosInfinity = PosInfinity"
| "js_plus NegInfinity y = NegInfinity"
| "js_plus x NegInfinity = NegInfinity"

text \<open>
  \<open>x / y\<close> for a divisor \<open>y\<close> that is a finite double other than \<open>-0\<close> (in the route, the
  length of an array); \<open>0 / 0\<close> is \<open>NaN\<close>.
\<close>

fun js_div :: "jsnum \<Rightarrow> rat \<Rightarrow> jsnum" where
  "js_div (Num x) y =
     (if y \<noteq> 0 then to_Number (x / y)
      else if x = 0 then NaN
      else if 0 < x then PosInfinity else NegInfinity)"
| "js_div NaN y = NaN"
| "js_div PosInfinity y = (if 0 \<le> y then PosInfinity else NegInfinity)"
| "js_div NegInfinity y = (if 0 \<le> y then NegInfinity else PosInfinity)"

text \<open>\<open>x * y\<close> for a factor \<open>y\<close> that is a finite double (in the route, \<open>100\<close>).\<close>

fun js_times :: "jsnum \<Rightarrow> rat \<Rightarrow> jsnum" where
  "js_times (Num x) y = to_Number (x * y)"
| "js_times NaN y = NaN"
| "js_times PosInfinity y = (if y = 0 then NaN else if 0 < y then PosInfinity else NegInfinity)"
| "js_times NegInfinity y = (if y = 0 then NaN else if 0 < y then NegInfinity else PosInfinity)"

text \<open>
  \<open>Math.round\<close>: the nearest integer, a half rounding towards \<open>+\<infinity>\<close>. It is exact: the
  doubles of magnitude \<open>2^52\<close> and more are integers, and the integers up to \<open>2^53\<close> are
  doubles.
\<close>

fun Math_round :: "jsnum \<Rightarrow> jsnum" where
  "Math_round (Num x) = Num (of_int \<lfloor>x + 1 / 2\<rfloor>)"
| "Math_round NaN = NaN"
| "Math_round PosInfinity = PosInfinity"
| "Math_round NegInfinity = NegInfinity"

subsection \<open>Aggregator (lines 91-134)\<close>

text \<open>
  One parsed evaluation, with the fields the aggregator reads at the types of the data
  model: integer scores, a boolean \<open>higherOrder\<close>, and a \<open>bloom\<close> label that is a string
  or is missing (\<open>None\<close>). The empty string is the one falsy string. As a number of the
  program a score is the double nearest to it (\<open>to_Number\<close>); the integers of magnitude up
  to \<open>2^53\<close> are doubles themselves.
\<close>

record evaluation =
  bloom :: "jsstring option"
  higherOrder :: bool
  clarityScore :: int
  grammarScore :: int
  spellingScore :: int
  overallScore :: int

text \<open>\<^verbatim>\<open>const avg = (val) => evaluations.length ? Math.round(val / evaluations.length) : 0;\<close>\<close>

definition avg :: "evaluation list \<Rightarrow> jsnum \<Rightarrow> jsnum" where
  "avg evaluations val =
     (if length evaluations \<noteq> 0
      then Math_round (js_div val (of_nat (length evaluations)))
      else Num 0)"

text \<open>
  The variables the \<open>forEach\<close> loop updates: \<open>totalScore\<close> (here \<open>totalScore_acc\<close>, the
  name being taken by the report's field), the three fields of \<open>metricTotals\<close>,
  \<open>bloomCounts\<close> and \<open>higherOrderCount\<close>. \<open>bloomCounts\<close> is an object used as a
  dictionary: the model keeps its own properties with their counts, in the order of
  their creation. The four sums are doubles, added with \<open>+=\<close>. An array has fewer than
  \<open>2^32\<close> elements, so its length and the counts of the loop are integers that doubles
  hold exactly; they are kept as natural numbers.

  The model of \<open>bloomCounts\<close> covers labels that are not names of properties of
  \<open>Object.prototype\<close> (\<open>object_prototype_keys\<close> below). For such a name
  \<open>bloomCounts[q.bloom]\<close> reads the inherited member instead of a count; what the
  source then stores is not a number and the comparison function of the later \<open>sort\<close>
  is no longer consistent, which leaves the order to the implementation.
\<close>

record totals =
  totalScore_acc :: jsnum
  spelling :: jsnum
  grammar :: jsnum
  clarity :: jsnum
  bloomCounts :: "(jsstring \<times> nat) list"
  higherOrderCount :: nat

definition object_prototype_keys :: "jsstring list" where
  "object_prototype_keys = map ascii
     [''constructor'', ''__defineGetter__'', ''__defineSetter__'', ''hasOwnProperty'',
      ''__lookupGetter__'', ''__lookupSetter__'', ''isPrototypeOf'',
      ''propertyIsEnumerable'', ''toString'', ''valueOf'', ''__proto__'',
      ''toLocaleString'']"

text \<open>\<^verbatim>\<open>bloomCounts[q.bloom] = (bloomCounts[q.bloom] || 0) + 1;\<close>\<close>

fun increment :: "jsstring \<Rightarrow> (jsstring \<times> nat) list \<Rightarrow> (jsstring \<times> nat) list" where
  "increment k [] = [(k, 1)]"
| "increment k ((k', n) # kvs) =
     (if k' = k then (k', n + 1) # kvs else (k', n) # increment k kvs)"

text \<open>The body of the loop (lines 99-109); a label is truthy when it is a non-empty string.\<close>

definition tally :: "totals \<Rightarrow> evaluation \<Rightarrow> totals" where
  "tally t q =
     t\<lparr> totalScore_acc := js_plus (totalScore_acc t) (to_Number (of_int (overallScore q))),
        spelling := js_plus (spelling t) (to_Number (of_int (spellingScore q))),
        grammar := js_plus (grammar t) (to_Number (of_int (grammarScore q))),
        clarity := js_plus (clarity t) (to_Number (of_int (clarityScore q))),
        bloomCounts :=
          (case bloom q of
             Some l \<Rightarrow> if l \<noteq> [] then increment l (bloomCounts t) else bloomCounts t
           | None \<Rightarrow> bloomCounts t),
        higherOrderCount := (if higherOrder q then higherOrderCount t + 1 else higherOrderCount t) \<rparr>"

definition zero_totals :: totals where
  "zero_totals =
     \<lparr> totalScore_acc = Num 0, spelling = Num 0, grammar = Num 0, clarity = Num 0,
       bloomCounts = [], higherOrderCount = 0 \<rparr>"

definition forEach_tally :: "evaluation list \<Rightarrow> totals" where
  "forEach_tally evaluations = foldl tally zero_totals evaluations"

text \<open>
  \<open>Object.entries\<close> lists the own properties of an ordinary object in the order of
  OrdinaryOwnPropertyKeys: first the keys that are array indices, in ascending numeric
  order, then the other string keys in the order of their creation. An array index is
  the canonical decimal numeral of an integer from \<open>0\<close> to \<open>2^32 - 2\<close>.
\<close>

function decimal :: "nat \<Rightarrow> jsstring" where
  "decimal n =
     (if n < 10 then [of_nat (48 + n)]
      else decimal (n div 10) @ [of_nat (48 + n mod 10)])"
  by pat_completeness auto
termination
  by (relation "measure id") auto

declare decimal.simps [simp del]

definition digits_value :: "jsstring \<Rightarrow> nat" where
  "digits_value s = foldl (\<lambda>v c. 10 * v + (unat c - 48)) 0 s"

definition array_index :: "jsstring \<Rightarrow> nat option" where
  "array_index k =
     (let v = digits_value k
      in if k \<noteq> [] \<and> list_all (\<lambda>c. 0x30 \<le> c \<and> c \<le> 0x39) k \<and> decimal v = k
            \<and> v \<le> 4294967294
         then Some v else None)"

definition Object_entries :: "(jsstring \<times> nat) list \<Rightarrow> (jsstring \<times> nat) list" where
  "Object_entries props =
     sort_key (\<lambda>(k, n). the (array_index k)) (filter (\<lambda>(k, n). array_index k \<noteq> None) props)
     @ filter (\<lambda>(k, n). array_index k = None) props"

text \<open>
  \<^verbatim>\<open>Object.entries(bloomCounts).sort((a, b) => b[1] - a[1])[0]?.[0] || "N/A"\<close>

  \<open>Array.prototype.sort\<close> is stable; sorting with \<open>b[1] - a[1]\<close> is sorting by
  descending count, that is by ascending negated count.
\<close>

definition mostCommonBloom :: "(jsstring \<times> nat) list \<Rightarrow> jsstring" where
  "mostCommonBloom bloomCounts' =
     (case sort_key (\<lambda>(k, n). - int n) (Object_entries bloomCounts') of
        [] \<Rightarrow> ascii ''N/A''
      | (k, n) # rest \<Rightarrow> if k \<noteq> [] then k else ascii ''N/A'')"

text \<open>A metric's score is a number, or for the Bloom level a string.\<close>

datatype score = Number jsnum | Text jsstring

record metric =
  label :: jsstring
  score :: score

record report =
  totalScore :: jsnum
  metrics :: "metric list"
  unitCoverage :: jsstring
  difficulty :: jsstring
  evaluations :: "evaluation list"

definition aggregate :: "evaluation list \<Rightarrow> report" where
  "aggregate evs =
     (let t = forEach_tally evs
      in \<lparr> totalScore = avg evs (totalScore_acc t),
           metrics =
             [\<lparr> label = ascii ''Spelling'', score = Number (avg evs (spelling t)) \<rparr>,
              \<lparr> label = ascii ''Grammar'', score = Number (avg evs (grammar t)) \<rparr>,
              \<lparr> label = ascii ''Clarity'', score = Number (avg evs (clarity t)) \<rparr>,
              \<lparr> label = ascii ''Bloom Level'', score = Text (mostCommonBloom (bloomCounts t)) \<rparr>,
              \<lparr> label = ascii ''Higher Order'',
                score = Number (Math_round (js_times
                  (js_div (Num (of_nat (higherOrderCount t))) (of_nat (length evs))) 100)) \<rparr>,
              \<lparr> label = ascii ''CO Match'', score = Number (Num 70) \<rparr>,
              \<lparr> label = ascii ''Syllabus Match'', score = Number (Num 75) \<rparr>],
           unitCoverage = ascii ''3 / 5'',
           difficulty = ascii ''Medium'',
           evaluations = evs \<rparr>)"

subsection \<open>JSON values and \<open>JSON.parse\<close>\<close>

text \<open>
  \<open>JSON.parse\<close> belongs to the platform. It is modelled after the JSON grammar of
  ECMA-404, which \<open>JSON.parse\<close> accepts exactly: a lexer (\<open>tokens\<close>) and a pushdown
  parser over the tokens (\<open>run\<close>). \<open>None\<close> stands for the \<open>SyntaxError\<close> that
  \<open>JSON.parse\<close> throws. A number of the text becomes the double nearest to its decimal
  value: \<open>JNum\<close> holds a finite double, and a literal beyond the range of the doubles
  becomes an infinity. The members of an object are kept in the order of the text; when
  a name occurs twice the later member is the one a property read finds.
\<close>

datatype json =
  JNull | JBool bool | JNum rat | JPosInfinity | JNegInfinity | JStr jsstring
  | JArr "json list" | JObj "(jsstring \<times> json) list"

definition is_digit :: "code_unit \<Rightarrow> bool" where
  "is_digit c \<longleftrightarrow> 0x30 \<le> c \<and> c \<le> 0x39"

text \<open>
  String literals: \<open>lex_string\<close> reads the text after the opening quote up to the closing
  quote and returns the decoded string with the rest of the text. Control characters
  must be escaped; the escapes are \<^verbatim>\<open>\" \\ \/ \b \f \n \r \t\<close> and \<^verbatim>\<open>\u\<close> with four
  hexadecimal digits.
\<close>

definition hex_value :: "code_unit \<Rightarrow> nat option" where
  "hex_value c =
     (if 0x30 \<le> c \<and> c \<le> 0x39 then Some (unat c - 48)
      else if 0x41 \<le> c \<and> c \<le> 0x46 then Some (unat c - 55)
      else if 0x61 \<le> c \<and> c \<le> 0x66 then Some (unat c - 87)
      else None)"

definition hex4 :: "jsstring \<Rightarrow> code_unit option" where
  "hex4 s =
     (case map hex_value s of
        [Some a, Some b, Some c, Some d] \<Rightarrow> Some (of_nat (((a * 16 + b) * 16 + c) * 16 + d))
      | _ \<Rightarrow> None)"

definition unescape :: "code_unit \<Rightarrow> code_unit option" where
  "unescape e =
     (if e = 0x22 \<or> e = 0x5C \<or> e = 0x2F then Some e
      else if e = 0x62 then Some 0x08
      else if e = 0x66 then Some 0x0C
      else if e = 0x6E then Some 0x0A
      else if e = 0x72 then Some 0x0D
      else if e = 0x74 then Some 0x09
      else None)"

fun lex_string :: "jsstring \<Rightarrow> (jsstring \<times> jsstring) option" where
  "lex_string [] = None"
| "lex_string (c # cs) =
     (if c = 0x22 then Some ([], cs)
      else if c = 0x5C then
        (case cs of
           [] \<Rightarrow> None
         | e # es \<Rightarrow>
             if e = 0x75 then
               (case hex4 (take 4 es) of
                  None \<Rightarrow> None
                | Some u \<Rightarrow> map_option (\<lambda>(s, rest). (u # s, rest)) (lex_string (drop 4 es)))
             else
               (case unescape e of
                  None \<Rightarrow> None
                | Some u \<Rightarrow> map_option (\<lambda>(s, rest). (u # s, rest)) (lex_string es)))
      else if c < 0x20 then None
      else map_option (\<lambda>(s, rest). (c # s, rest)) (lex_string cs))"

text \<open>
  Number literals: an optional minus sign, an integer part without a leading zero, an
  optional fraction and an optional exponent. \<open>number_value\<close> is the number a literal of
  decimal value \<open>v\<close> denotes: the nearest double, as in \<open>to_Number\<close>.
\<close>

definition number_value :: "rat \<Rightarrow> json" where
  "number_value v =
     (let y = round_double v
      in if 2 ^ 1024 \<le> \<bar>y\<bar> then (if 0 < v then JPosInfinity else JNegInfinity) else JNum y)"

definition lex_fraction :: "jsstring \<Rightarrow> (jsstring \<times> jsstring) option" where
  "lex_fraction s =
     (case s of
        [] \<Rightarrow> Some ([], [])
      | c # cs \<Rightarrow>
          if c = 0x2E then
            (if takeWhile is_digit cs = [] then None
             else Some (takeWhile is_digit cs, dropWhile is_digit cs))
          else Some ([], s))"

definition lex_exponent :: "jsstring \<Rightarrow> (int \<times> jsstring) option" where
  "lex_exponent s =
     (case s of
        [] \<Rightarrow> Some (0, [])
      | c # cs \<Rightarrow>
          if c = 0x65 \<or> c = 0x45 then
            (let (minus, ds) =
               (case cs of
                  [] \<Rightarrow> (False, [])
                | d # ds \<Rightarrow>
                    if d = 0x2D then (True, ds) else if d = 0x2B then (False, ds) else (False, cs))
             in if takeWhile is_digit ds = [] then None
                else Some ((if minus then - int (digits_value (takeWhile is_digit ds))
                            else int (digits_value (takeWhile is_digit ds))),
                           dropWhile is_digit ds))
          else Some (0, s))"

definition lex_number :: "jsstring \<Rightarrow> (json \<times> jsstring) option" where
  "lex_number s =
     (let (minus, s1) = (case s of [] \<Rightarrow> (False, []) | c # cs \<Rightarrow> if c = 0x2D then (True, cs) else (False, s));
          ip = takeWhile is_digit s1
      in if ip = [] \<or> (hd ip = 0x30 \<and> 1 < length ip) then None
         else
           (case lex_fraction (dropWhile is_digit s1) of
              None \<Rightarrow> None
            | Some (fp, s3) \<Rightarrow>
                (case lex_exponent s3 of
                   None \<Rightarrow> None
                 | Some (ex, s4) \<Rightarrow>
                     Some (number_value
                             ((if minus then - 1 else 1) * of_nat (digits_value (ip @ fp))
                              / 10 ^ length fp
                              * (if 0 \<le> ex then 10 ^ nat ex else 1 / 10 ^ nat (- ex))),
                           s4))))"

datatype token = LBracket | RBracket | LBrace | RBrace | Comma | Colon | Atom json

function tokens :: "jsstring \<Rightarrow> token list option" where
  "tokens [] = Some []"
| "tokens (c # cs) =
     (if c = 0x20 \<or> c = 0x09 \<or> c = 0x0A \<or> c = 0x0D then tokens cs
      else if c = 0x5B then map_option (Cons LBracket) (tokens cs)
      else if c = 0x5D then map_option (Cons RBracket) (tokens cs)
      else if c = 0x7B then map_option (Cons LBrace) (tokens cs)
      else if c = 0x7D then map_option (Cons RBrace) (tokens cs)
      else if c = 0x2C then map_option (Cons Comma) (tokens cs)
      else if c = 0x3A then map_option (Cons Colon) (tokens cs)
      else if c = 0x22 then
        (case lex_string cs of
           None \<Rightarrow> None
         | Some (s, rest) \<Rightarrow> map_option (Cons (Atom (JStr s))) (tokens rest))
      else if c = 0x2D \<or> is_digit c then
        (case lex_number (c # cs) of
           None \<Rightarrow> None
         | Some (number, rest) \<Rightarrow> map_option (Cons (Atom number)) (tokens rest))
      else if take 4 (c # cs) = ascii ''true'' then
        map_option (Cons (Atom (JBool True))) (tokens (drop 3 cs))
      else if take 5 (c # cs) = ascii ''false'' then
        map_option (Cons (Atom (JBool False))) (tokens (drop 4 cs))
      else if take 4 (c # cs) = ascii ''null'' then
        map_option (Cons (Atom JNull)) (tokens (drop 3 cs))
      else None)"
  by pat_completeness auto
termination
proof (relation "measure length")
  have str: "length rest \<le> length cs" if "lex_string cs = Some (s, rest)"
    for cs s rest
    using that
  proof (induction cs arbitrary: s rest rule: lex_string.induct)
    case 1
    then show ?case by simp
  next
    case (2 c cs)
    show ?case
    proof (cases "c = 0x22")
      case True
      with "2.prems" show ?thesis by simp
    next
      case q: False
      show ?thesis
      proof (cases "c = 0x5C")
        case True
        then obtain e es where cs: "cs = e # es" using "2.prems" q by (cases cs) auto
        show ?thesis
        proof (cases "e = 0x75")
          case u: True
          with "2.prems" q True cs obtain v s' where
            "hex4 (take 4 es) = Some v" "lex_string (drop 4 es) = Some (s', rest)"
            by (auto split: option.splits)
          with "2.IH"(1) [OF q True cs u] have "length rest \<le> length (drop 4 es)" by blast
          then show ?thesis by (simp add: cs)
        next
          case u: False
          with "2.prems" q True cs obtain v s' where
            v: "unescape e = Some v" and "lex_string es = Some (s', rest)"
            by (auto split: option.splits)
          with "2.IH"(2) [OF q True cs u v] have "length rest \<le> length es" by blast
          then show ?thesis by (simp add: cs)
        qed
      next
        case False
        with "2.prems" q obtain s' where c: "\<not> c < 0x20" and "lex_string cs = Some (s', rest)"
          by (auto split: if_splits)
        with "2.IH"(3) [OF q False c] have "length rest \<le> length cs" by blast
        then show ?thesis by simp
      qed
    qed
  qed
  have frac: "length rest \<le> length s" if "lex_fraction s = Some (fp, rest)" for s fp rest
    using that length_dropWhile_le [of is_digit "tl s"]
    by (cases s) (auto simp: lex_fraction_def split: if_splits)
  have expo: "length rest \<le> length s" if "lex_exponent s = Some (ex, rest)" for s ex rest
  proof (cases s)
    case Nil
    with that show ?thesis by (simp add: lex_exponent_def)
  next
    case (Cons c cs)
    show ?thesis
    proof (cases "c = 0x65 \<or> c = 0x45")
      case False
      with that Cons show ?thesis by (auto simp: lex_exponent_def)
    next
      case True
      with that Cons obtain ds where "rest = dropWhile is_digit ds" "length ds \<le> length cs"
        by (cases cs) (auto simp: lex_exponent_def Let_def split: if_splits)
      then show ?thesis using length_dropWhile_le [of is_digit ds] Cons by simp
    qed
  qed
  have num: "length rest \<le> length cs" if "lex_number (c # cs) = Some (r, rest)"
    for c cs r rest
  proof -
    define s1 where "s1 = (if c = 0x2D then cs else c # cs)"
    from that obtain fp s3 ex where
      ip: "takeWhile is_digit s1 \<noteq> []"
      and f: "lex_fraction (dropWhile is_digit s1) = Some (fp, s3)"
      and e: "lex_exponent s3 = Some (ex, rest)"
      by (auto simp: lex_number_def s1_def Let_def split: if_splits option.splits)
    have "length (takeWhile is_digit s1) + length (dropWhile is_digit s1) = length s1"
      by (metis length_append takeWhile_dropWhile_id)
    with ip have "length (dropWhile is_digit s1) < length s1"
      by (cases "takeWhile is_digit s1") auto
    with frac [OF f] expo [OF e] have "length rest < length s1" by simp
    then show ?thesis by (simp add: s1_def split: if_splits)
  qed
  show "wf (measure length)" by simp
  show "(rest, c # cs) \<in> measure length"
    if "lex_string cs = Some x2" "(s, rest) = x2" for c cs x2 s rest
    using str [of cs s rest] that by simp
  show "(rest, c # cs) \<in> measure length"
    if "lex_number (c # cs) = Some x2" "(r, rest) = x2" for c cs x2 r rest
    using num [of c cs r rest] that by simp
qed simp_all

text \<open>
  The parser keeps a stack of the arrays and objects that are still open, each with the
  elements or members read so far (an object also with the name whose value is awaited),
  and a state that says which tokens may come next. \<open>complete\<close> files a finished value:
  at the top level it is the result, otherwise it joins the innermost open container.
\<close>

datatype frame =
  ArrFrame "json list"
  | ObjFrame "(jsstring \<times> json) list" "jsstring option"

datatype pstate =
  ExpectValue | ExpectValueOrClose | ExpectKeyOrClose | ExpectKey | ExpectColon
  | ExpectCommaOrClose | Finished json

fun complete :: "json \<Rightarrow> frame list \<Rightarrow> (pstate \<times> frame list) option" where
  "complete v [] = Some (Finished v, [])"
| "complete v (ArrFrame es # st) = Some (ExpectCommaOrClose, ArrFrame (es @ [v]) # st)"
| "complete v (ObjFrame ms (Some k) # st) =
     Some (ExpectCommaOrClose, ObjFrame (ms @ [(k, v)]) None # st)"
| "complete v (ObjFrame ms None # st) = None"

definition begin_value :: "frame list \<Rightarrow> token \<Rightarrow> (pstate \<times> frame list) option" where
  "begin_value st t =
     (case t of
        Atom v \<Rightarrow> complete v st
      | LBracket \<Rightarrow> Some (ExpectValueOrClose, ArrFrame [] # st)
      | LBrace \<Rightarrow> Some (ExpectKeyOrClose, ObjFrame [] None # st)
      | _ \<Rightarrow> None)"

definition begin_member :: "frame list \<Rightarrow> token \<Rightarrow> (pstate \<times> frame list) option" where
  "begin_member st t =
     (case (t, st) of
        (Atom (JStr k), ObjFrame ms None # st') \<Rightarrow> Some (ExpectColon, ObjFrame ms (Some k) # st')
      | _ \<Rightarrow> None)"

fun step :: "pstate \<times> frame list \<Rightarrow> token \<Rightarrow> (pstate \<times> frame list) option" where
  "step (ExpectValue, st) t = begin_value st t"
| "step (ExpectValueOrClose, st) t =
     (case t of
        RBracket \<Rightarrow> (case st of ArrFrame [] # st' \<Rightarrow> complete (JArr []) st' | _ \<Rightarrow> None)
      | _ \<Rightarrow> begin_value st t)"
| "step (ExpectKeyOrClose, st) t =
     (case t of
        RBrace \<Rightarrow> (case st of ObjFrame [] None # st' \<Rightarrow> complete (JObj []) st' | _ \<Rightarrow> None)
      | _ \<Rightarrow> begin_member st t)"
| "step (ExpectKey, st) t = begin_member st t"
| "step (ExpectColon, st) t = (case t of Colon \<Rightarrow> Some (ExpectValue, st) | _ \<Rightarrow> None)"
| "step (ExpectCommaOrClose, st) t =
     (case (t, st) of
        (Comma, ArrFrame es # st') \<Rightarrow> Some (ExpectValue, st)
      | (Comma, ObjFrame ms None # st') \<Rightarrow> Some (ExpectKey, st)
      | (RBracket, ArrFrame es # st') \<Rightarrow> complete (JArr es) st'
      | (RBrace, ObjFrame ms None # st') \<Rightarrow> complete (JObj ms) st'
      | _ \<Rightarrow> None)"
| "step (Finished v, st) t = None"

fun run :: "pstate \<times> frame list \<Rightarrow> token list \<Rightarrow> (pstate \<times> frame list) option" where
  "run cfg [] = Some cfg"
| "run cfg (t # ts) = (case step cfg t of None \<Rightarrow> None | Some cfg' \<Rightarrow> run cfg' ts)"

definition JSON_parse :: "jsstring \<Rightarrow> json option" where
  "JSON_parse text =
     (case tokens text of
        None \<Rightarrow> None
      | Some ts \<Rightarrow>
          (case run (ExpectValue, []) ts of
             Some (Finished v, []) \<Rightarrow> Some v
           | _ \<Rightarrow> None))"

subsection \<open>Reading the parsed evaluations\<close>

text \<open>
  \<open>get_prop v name\<close> is the property read \<open>v.name\<close> on a parsed value other than \<open>null\<close>,
  for the names the route reads (no prototype defines any of them): the member of an
  object, \<open>undefined\<close> (\<open>None\<close>) when the object has no such member or the value is not
  an object. \<open>truthy\<close> is JavaScript's truthiness of a parsed value.
\<close>

definition get_prop :: "json \<Rightarrow> string \<Rightarrow> json option" where
  "get_prop v name = (case v of JObj ms \<Rightarrow> map_of (rev ms) (ascii name) | _ \<Rightarrow> None)"

definition truthy :: "json \<Rightarrow> bool" where
  "truthy v =
     (case v of
        JNull \<Rightarrow> False
      | JBool b \<Rightarrow> b
      | JNum r \<Rightarrow> r \<noteq> 0
      | JStr s \<Rightarrow> s \<noteq> []
      | _ \<Rightarrow> True)"

text \<open>
  The aggregator is modelled on evaluations that have the types of the data model.
  \<open>as_evaluation\<close> reads such an evaluation from a parsed element: the four scores are
  integers, and \<open>bloom\<close> is a string that is not the name of a property of
  \<open>Object.prototype\<close>, or is falsy or missing. On any other element the loop coerces
  the values with \<open>+=\<close> and turns the label into a property key; that arithmetic is not
  modelled, and \<open>as_evaluation\<close> is \<open>None\<close> there.
\<close>

definition as_score :: "json option \<Rightarrow> int option" where
  "as_score v =
     (case v of
        Some (JNum r) \<Rightarrow> if of_int \<lfloor>r\<rfloor> = r then Some \<lfloor>r\<rfloor> else None
      | _ \<Rightarrow> None)"

definition as_label :: "json option \<Rightarrow> jsstring option option" where
  "as_label v =
     (case v of
        None \<Rightarrow> Some None
      | Some (JStr l) \<Rightarrow> if l \<in> set object_prototype_keys then None else Some (Some l)
      | Some w \<Rightarrow> if truthy w then None else Some None)"

definition as_evaluation :: "json \<Rightarrow> evaluation option" where
  "as_evaluation q =
     (case (as_label (get_prop q ''bloom''), as_score (get_prop q ''clarityScore''),
            as_score (get_prop q ''grammarScore''), as_score (get_prop q ''spellingScore''),
            as_score (get_prop q ''overallScore'')) of
        (Some b, Some c, Some g, Some s, Some ov) \<Rightarrow>
          Some \<lparr> bloom = b,
                 higherOrder = (case get_prop q ''higherOrder'' of None \<Rightarrow> False | Some h \<Rightarrow> truthy h),
                 clarityScore = c, grammarScore = g, spellingScore = s, overallScore = ov \<rparr>
      | _ \<Rightarrow> None)"

text \<open>
  The coercions of the loop can throw. \<open>+=\<close> and the property key \<open>bloomCounts[q.bloom]\<close>
  convert an object or an array to a primitive value with its methods \<open>valueOf\<close> and
  \<open>toString\<close>. \<open>Object.prototype.valueOf\<close> returns the object itself, which is no
  primitive value, so the conversion succeeds through \<open>toString\<close>: for an object that is
  \<open>Object.prototype.toString\<close> unless the object has a member named \<open>toString\<close> of
  its own (a parsed value is never a function, and the conversion then throws a
  \<open>TypeError\<close>); for an array it is \<open>join\<close>, which converts each element other than
  \<open>null\<close> to a string in the same way. \<open>unprintable v\<close> says that the conversion of \<open>v\<close>
  throws. An object or an array is truthy, so the test \<open>if (q.bloom)\<close> lets it through.
  \<open>loop_body_throws q\<close> says that the body of the loop (lines 100-108) throws on the
  element \<open>q\<close>: \<open>q\<close> is \<open>null\<close>, or one of the four scores or the label is unprintable.
\<close>

fun unprintable :: "json \<Rightarrow> bool" where
  "unprintable (JObj ms) = (ascii ''toString'' \<in> set (map fst ms))"
| "unprintable (JArr xs) = list_ex unprintable xs"
| "unprintable v = False"

definition loop_body_throws :: "json \<Rightarrow> bool" where
  "loop_body_throws q \<longleftrightarrow>
     q = JNull
     \<or> list_ex (\<lambda>name. case get_prop q name of None \<Rightarrow> False | Some v \<Rightarrow> unprintable v)
          [''overallScore'', ''spellingScore'', ''grammarScore'', ''clarityScore'', ''bloom'']"

subsection \<open>The route handler (lines 10-142)\<close>

text \<open>
  A response is \<open>NextResponse.json({ error }, { status })\<close> or the report with status 200.
  \<open>Unmodelled_report\<close> is the report with status 200 that the source computes from an
  array on which the loop does not throw but which has an element outside the data model
  (see \<open>as_evaluation\<close>); its numbers are not modelled. The report carries the
  evaluations as read by \<open>as_evaluation\<close>.

  A fault thrown inside the \<open>try\<close> block is the value \<open>Throws\<close>; the \<open>catch\<close> of line 135
  turns it into the response \<open>Evaluation failed.\<close> with status 500.
\<close>

datatype response =
  Error_response jsstring nat
  | Report_response report
  | Unmodelled_report "json list"

datatype 'a outcome = Returns 'a | Throws

text \<open>
  Lines 91-134 on the parsed value. \<open>evaluations.forEach\<close> throws a \<open>TypeError\<close> unless
  the value is an array, and the loop body throws one on an element that is \<open>null\<close> or
  has an unprintable score or label.
\<close>

definition summarize :: "json \<Rightarrow> response outcome" where
  "summarize evaluations' =
     (case evaluations' of
        JArr qs \<Rightarrow>
          if list_ex loop_body_throws qs then Throws
          else (case those (map as_evaluation qs) of
                  Some evs \<Rightarrow> Returns (Report_response (aggregate evs))
                | None \<Rightarrow> Returns (Unmodelled_report qs))
      | _ \<Rightarrow> Throws)"

text \<open>
  Lines 80-89: \<open>JSON.parse\<close> inside its own \<open>try\<close>; a syntax error is answered at once.
\<close>

definition parse_evaluations :: "jsstring \<Rightarrow> response + json" where
  "parse_evaluations raw =
     (case JSON_parse raw of
        None \<Rightarrow> Inl (Error_response (ascii ''AI response could not be parsed.'') 500)
      | Some evaluations' \<Rightarrow> Inr evaluations')"

text \<open>
  The completion the Evaluator returns, as far as the route reads it: the completion
  itself, its \<open>choices\<close> and the \<open>message\<close> of a choice may be missing, and the
  \<open>content\<close> of a message is a string or \<open>null\<close>.
\<close>

record message =
  content :: "jsstring option"

record choice =
  message :: "message option"

record completion =
  choices :: "choice list option"

text \<open>
  Lines 62-134, all that follows the call of the Evaluator. The test of line 62 reads
  \<open>completion.choices[0].message\<close>, which throws when \<open>choices\<close> is empty. Line 71
  takes \<open>"[]"\<close> for a content that is missing or empty.
\<close>

definition answer :: "completion option \<Rightarrow> response outcome" where
  "answer completion' =
     (case completion' of
        None \<Rightarrow> Returns (Error_response (ascii ''No response from AI.'') 500)
      | Some c \<Rightarrow>
          (case choices c of
             None \<Rightarrow> Returns (Error_response (ascii ''No response from AI.'') 500)
           | Some [] \<Rightarrow> Throws
           | Some (first # others) \<Rightarrow>
               (case message first of
                  None \<Rightarrow> Returns (Error_response (ascii ''No response from AI.'') 500)
                | Some m \<Rightarrow>
                    (let raw = (case content m of
                                  None \<Rightarrow> ascii ''[]''
                                | Some text \<Rightarrow> if text \<noteq> [] then text else ascii ''[]'')
                     in case parse_evaluations (extract_array raw) of
                          Inl failure \<Rightarrow> Returns failure
                        | Inr evaluations' \<Rightarrow> summarize evaluations'))))"

text \<open>Lines 35-51: the two prompts. The template literal starts and ends with a newline.\<close>

definition systemPrompt :: jsstring where
  "systemPrompt = concat (map (\<lambda>line. ascii line @ [0x0A])
     ['''',
      ''You are an expert academic evaluator.'',
      '''',
      ''For each question, return a JSON array with:'',
      ''- \"question\": original question'',
      ''- \"bloom\": Bloom's level'',
      ''- \"higherOrder\": true/false'',
      ''- \"clarityScore\": out of 100'',
      ''- \"grammarScore\": out of 100'',
      ''- \"spellingScore\": out of 100'',
      ''- \"overallScore\": out of 100 (average of the above)'',
      ''- \"suggestions\": list of 2 suggestions to improve'',
      '''',
      ''Respond in JSON array format only.''])"

fun join :: "jsstring \<Rightarrow> jsstring list \<Rightarrow> jsstring" where
  "join sep [] = []"
| "join sep [x] = x"
| "join sep (x # y # ys) = x @ sep @ join sep (y # ys)"

definition userPrompt :: "jsstring list \<Rightarrow> jsstring" where
  "userPrompt qs =
     join [0x0A] (map (\<lambda>(i, q). decimal (i + 1) @ ascii ''. '' @ q) (enumerate 0 qs))"

text \<open>Lines 53-60: the request sent to the Evaluator, with its messages as (role, content).\<close>

record chat_request =
  model :: jsstring
  messages :: "(jsstring \<times> jsstring) list"
  max_tokens :: nat

definition completion_request :: "jsstring \<Rightarrow> chat_request" where
  "completion_request set1 =
     \<lparr> model = ascii ''mistralai/mistral-7b-instruct'',
       messages = [(ascii ''system'', systemPrompt),
                   (ascii ''user'', userPrompt (questions set1))],
       max_tokens = 2000 \<rparr>"

text \<open>
  The handler. \<open>body\<close> is the result of \<open>await req.json()\<close>: a parsed JSON value, or
  \<open>None\<close> when the body cannot be read and the promise is rejected. \<open>create\<close> stands
  for \<open>openai.chat.completions.create\<close>, which returns a completion or throws. The
  handler returns the response together with the list of the requests it sent to the
  Evaluator. Destructuring \<open>null\<close> throws a \<open>TypeError\<close>; on every other value the three
  names are read as properties. The calls of \<open>console.error\<close> are left out.
\<close>

definition POST ::
  "(chat_request \<Rightarrow> completion option outcome) \<Rightarrow> json option \<Rightarrow> response \<times> chat_request list"
where
  "POST create body =
     (case body of
        None \<Rightarrow> (Error_response (ascii ''Evaluation failed.'') 500, [])
      | Some JNull \<Rightarrow> (Error_response (ascii ''Evaluation failed.'') 500, [])
      | Some b \<Rightarrow>
          (case (get_prop b ''outcomes'', get_prop b ''syllabus'', get_prop b ''set1'') of
             (Some (JStr outcomes), Some (JStr syllabus), Some (JStr set1)) \<Rightarrow>
               (case create (completion_request set1) of
                  Throws \<Rightarrow>
                    (Error_response (ascii ''Evaluation failed.'') 500, [completion_request set1])
                | Returns completion' \<Rightarrow>
                    (case answer completion' of
                       Throws \<Rightarrow>
                         (Error_response (ascii ''Evaluation failed.'') 500,
                          [completion_request set1])
                     | Returns reply \<Rightarrow> (reply, [completion_request set1])))
           | _ \<Rightarrow> (Error_response (ascii ''Invalid input data.'') 400, [])))"

subsection \<open>Notions used to state the properties\<close>

text \<open>
  The definitions of this subsection are not code of the route: they say, in the words of
  the specification, what the theorems below compare the code with.

  A separator of the segmenter is a newline, white space, and a newline: the end of a
  line followed by one or more blank lines. \<open>contains_blank_line\<close> says that such a
  separator occurs inside a text, and \<open>interleave\<close> puts chunks and separators back
  together.
\<close>

definition blank_separator :: "jsstring \<Rightarrow> bool" where
  "blank_separator sep \<longleftrightarrow>
     2 \<le> length sep \<and> hd sep = 0x0A \<and> last sep = 0x0A \<and> list_all is_space sep"

definition contains_blank_line :: "jsstring \<Rightarrow> bool" where
  "contains_blank_line s \<longleftrightarrow>
     (\<exists>a w b. s = a @ [0x0A] @ w @ [0x0A] @ b \<and> list_all is_space w)"

fun interleave :: "jsstring list \<Rightarrow> jsstring list \<Rightarrow> jsstring" where
  "interleave [] seps = []"
| "interleave (c # cs) [] = c @ concat cs"
| "interleave (c # cs) (sep # seps) = c @ sep @ interleave cs seps"

text \<open>
  The mean of a score over the evaluations, and rounding to the nearest integer with
  halves going up: \<open>r\<close> is the rounding of \<open>x\<close> when \<open>r - 1/2 \<le> x < r + 1/2\<close>.
\<close>

definition mean :: "(evaluation \<Rightarrow> int) \<Rightarrow> evaluation list \<Rightarrow> rat" where
  "mean f evs = of_int (sum_list (map f evs)) / of_nat (length evs)"

definition nearest_half_up :: "rat \<Rightarrow> int \<Rightarrow> bool" where
  "nearest_half_up x r \<longleftrightarrow> of_int r - 1 / 2 \<le> x \<and> x < of_int r + 1 / 2"

text \<open>
  The scores of a field are within double precision when their absolute values sum to
  less than \<open>2^52\<close>. Then every partial sum of the loop is an integer that a double holds,
  and the quotient of the sum by the number of evaluations is rounded by \<open>Math.round\<close>
  like the exact quotient.
\<close>

definition within_double_precision :: "(evaluation \<Rightarrow> int) \<Rightarrow> evaluation list \<Rightarrow> bool" where
  "within_double_precision f evs \<longleftrightarrow> sum_list (map (\<lambda>q. \<bar>f q\<bar>) evs) < 2 ^ 52"

text \<open>
  The labels that count: those of the evaluations whose \<open>bloom\<close> is a non-empty string,
  in the order of the evaluations. \<open>first_seen\<close> lists the distinct elements of a list in
  the order of their first occurrence, and \<open>key_order\<close> is the order in which an object
  that got the labels as keys, one after the other, enumerates them: the array indices
  in ascending numeric order, then the other labels as first seen.
\<close>

definition bloom_labels :: "evaluation list \<Rightarrow> jsstring list" where
  "bloom_labels evs =
     concat (map (\<lambda>q. case bloom q of Some l \<Rightarrow> if l \<noteq> [] then [l] else [] | None \<Rightarrow> []) evs)"

fun first_seen :: "'a list \<Rightarrow> 'a list" where
  "first_seen [] = []"
| "first_seen (x # xs) = x # filter (\<lambda>y. y \<noteq> x) (first_seen xs)"

definition key_order :: "jsstring list \<Rightarrow> jsstring list" where
  "key_order ls =
     sort_key (\<lambda>k. the (array_index k)) (filter (\<lambda>k. array_index k \<noteq> None) (first_seen ls))
     @ filter (\<lambda>k. array_index k = None) (first_seen ls)"

definition count_labels :: "jsstring list \<Rightarrow> (jsstring \<times> nat) list" where
  "count_labels ls = foldl (\<lambda>kvs l. increment l kvs) [] ls"

text \<open>
  A request body that satisfies the input contract: an object with the three fields, each
  a string.
\<close>

definition submission :: "jsstring \<Rightarrow> jsstring \<Rightarrow> jsstring \<Rightarrow> json" where
  "submission outcomes syllabus set1 =
     JObj [(ascii ''outcomes'', JStr outcomes), (ascii ''syllabus'', JStr syllabus),
           (ascii ''set1'', JStr set1)]"

text \<open>The three fields of a body are all present and textual.\<close>

definition textual :: "json option \<Rightarrow> bool" where
  "textual v \<longleftrightarrow> (case v of Some (JStr s) \<Rightarrow> True | _ \<Rightarrow> False)"

definition well_formed :: "json \<Rightarrow> bool" where
  "well_formed b \<longleftrightarrow>
     textual (get_prop b ''outcomes'') \<and> textual (get_prop b ''syllabus'')
     \<and> textual (get_prop b ''set1'')"

text \<open>A frame of the parser's stack that is an open array (used in the proofs about \<open>run\<close>).\<close>

definition is_array_frame :: "frame \<Rightarrow> bool" where
  "is_array_frame f \<longleftrightarrow> (case f of ArrFrame es \<Rightarrow> True | ObjFrame ms k \<Rightarrow> False)"

section \<open>Properties\<close>

subsection \<open>Sanitizer\<close>

lemma sanitize_map: "sanitize txt = map fold_glyph txt"
  by (simp add: sanitize_def replace_units_def fold_glyph_def)

lemma fold_glyph_idem: "fold_glyph (fold_glyph c) = fold_glyph c"
  by (simp add: fold_glyph_def)

text \<open>
  C10. The sanitizer is idempotent, it is the code-unit-wise folding of the bullet glyph
  to \<open>-\<close>, of the curly single quotes to \<open>'\<close> and of the curly double quotes to \<open>"\<close>,
  and, being a map, it is total and keeps the length of its input.
\<close>

theorem sanitize_idempotent:
  "sanitize (sanitize x) = sanitize x
   \<and> sanitize x = map fold_glyph x
   \<and> length (sanitize x) = length x
   \<and> fold_glyph 0x2022 = 0x2D
   \<and> fold_glyph 0x2018 = 0x27 \<and> fold_glyph 0x2019 = 0x27
   \<and> fold_glyph 0x201C = 0x22 \<and> fold_glyph 0x201D = 0x22"
  by (simp add: sanitize_map fold_glyph_idem) (simp add: fold_glyph_def)


subsection \<open>Segmenter\<close>

lemma is_space_LF [simp]: "is_space 0x0A"
  by (simp add: is_space_def)

lemma spaces_then_newline_Some:
  "spaces_then_newline cs = Some k \<Longrightarrow>
     0 < k \<and> k \<le> length cs \<and> list_all is_space (take k cs) \<and> last (take k cs) = 0x0A"
proof (induction cs arbitrary: k)
  case Nil
  then show ?case by simp
next
  case (Cons c cs)
  show ?case
  proof (cases "if is_space c then spaces_then_newline cs else None")
    case None
    with Cons.prems have "c = 0x0A" "k = 1" by (auto split: if_splits)
    then show ?thesis by simp
  next
    case (Some j)
    with Cons.prems have k: "k = Suc j" by simp
    from Some have c: "is_space c" and j: "spaces_then_newline cs = Some j"
      by (auto split: if_splits)
    from Cons.IH [OF j] have "0 < j" "j \<le> length cs" "list_all is_space (take j cs)"
      "last (take j cs) = 0x0A" by auto
    moreover from this have "take j cs \<noteq> []" by auto
    ultimately show ?thesis using c k by simp
  qed
qed

lemma blank_line_at_Some:
  assumes "blank_line_at s = Some e"
  shows "e \<le> length s" and "blank_separator (take e s)"
proof -
  from assms obtain cs k where s: "s = 0x0A # cs" and k: "spaces_then_newline cs = Some k"
    and e: "e = Suc k"
    by (auto simp: blank_line_at_def split: list.splits if_splits)
  from spaces_then_newline_Some [OF k]
  have *: "0 < k" "k \<le> length cs" "list_all is_space (take k cs)" "last (take k cs) = 0x0A"
    by auto
  then have ne: "take k cs \<noteq> []" by auto
  show "e \<le> length s" using * by (simp add: s e)
  show "blank_separator (take e s)"
    using * ne by (simp add: blank_separator_def s e)
qed

lemma split_blank_rebuild:
  "\<exists>seps. length (split_blank chunk s) = Suc (length seps)
      \<and> interleave (split_blank chunk s) seps = chunk @ s
      \<and> list_all blank_separator seps"
proof (induction chunk s rule: split_blank.induct)
  case (1 chunk)
  have "length (split_blank chunk []) = Suc (length ([] :: jsstring list))
      \<and> interleave (split_blank chunk []) [] = chunk @ []
      \<and> list_all blank_separator []" by simp
  then show ?case by blast
next
  case (2 chunk c cs)
  show ?case
  proof (cases "blank_line_at (c # cs)")
    case None
    from "2.IH"(1) [OF None] obtain seps where
      "length (split_blank (chunk @ [c]) cs) = Suc (length seps)"
      "interleave (split_blank (chunk @ [c]) cs) seps = (chunk @ [c]) @ cs"
      "list_all blank_separator seps" by blast
    then have "length (split_blank chunk (c # cs)) = Suc (length seps)
      \<and> interleave (split_blank chunk (c # cs)) seps = chunk @ c # cs
      \<and> list_all blank_separator seps" using None by simp
    then show ?thesis by blast
  next
    case (Some e)
    from "2.IH"(2) [OF Some] obtain seps where seps:
      "length (split_blank [] (drop e (c # cs))) = Suc (length seps)"
      "interleave (split_blank [] (drop e (c # cs))) seps = [] @ drop e (c # cs)"
      "list_all blank_separator seps" by blast
    have sep: "blank_separator (take e (c # cs))" by (rule blank_line_at_Some(2) [OF Some])
    have "length (split_blank chunk (c # cs)) = Suc (length (take e (c # cs) # seps))
      \<and> interleave (split_blank chunk (c # cs)) (take e (c # cs) # seps) = chunk @ c # cs
      \<and> list_all blank_separator (take e (c # cs) # seps)"
      using Some seps sep by (simp del: take_Suc_Cons drop_Suc_Cons)
    then show ?thesis by blast
  qed
qed

lemma trim_Nil_iff: "trim q = [] \<longleftrightarrow> list_all is_space q"
proof
  assume "trim q = []"
  then have "\<forall>c\<in>set (dropWhile is_space q). is_space c"
    by (simp add: trim_def dropWhile_eq_Nil_conv)
  then have "dropWhile is_space q = []"
    by (metis hd_dropWhile hd_in_set)
  then show "list_all is_space q" by (simp add: dropWhile_eq_Nil_conv list_all_iff)
next
  assume "list_all is_space q"
  then have "\<forall>c\<in>set q. is_space c" by (simp add: list_all_iff)
  then have d: "dropWhile is_space q = []" by (simp only: dropWhile_eq_Nil_conv)
  show "trim q = []" unfolding trim_def d by simp
qed

lemma is_space_fold_glyph [simp]: "is_space (fold_glyph c) = is_space c"
  by (auto simp: fold_glyph_def is_space_def)

lemma list_all_space_sanitize [simp]: "list_all is_space (sanitize q) = list_all is_space q"
  by (simp add: sanitize_map list_all_iff)

lemma questions_filter:
  "questions s = map sanitize (filter (\<lambda>c. \<not> list_all is_space c) (split_blank [] s))"
  by (simp add: questions_def filter_map comp_def trim_Nil_iff)

lemma spaces_then_newline_blank:
  "list_all is_space w \<Longrightarrow> spaces_then_newline (w @ 0x0A # r) \<noteq> None"
  by (induction w) (auto split: option.splits)

lemma blank_line_at_blank:
  "list_all is_space w \<Longrightarrow> blank_line_at (0x0A # w @ 0x0A # r) \<noteq> None"
  using spaces_then_newline_blank [of w r] by (simp add: blank_line_at_def)

lemma no_match_no_blank_line:
  assumes "\<forall>a b. chunk = a @ b \<and> b \<noteq> [] \<longrightarrow> blank_line_at (b @ s) = None"
  shows "\<not> contains_blank_line chunk"
proof
  assume "contains_blank_line chunk"
  then obtain a w b where c: "chunk = a @ [0x0A] @ w @ [0x0A] @ b" and w: "list_all is_space w"
    by (auto simp: contains_blank_line_def)
  from assms c have "blank_line_at (([0x0A] @ w @ [0x0A] @ b) @ s) = None" by blast
  then show False using blank_line_at_blank [OF w, of "b @ s"] by simp
qed

lemma split_blank_maximal:
  "\<forall>a b. chunk = a @ b \<and> b \<noteq> [] \<longrightarrow> blank_line_at (b @ s) = None \<Longrightarrow>
     list_all (\<lambda>ch. \<not> contains_blank_line ch) (split_blank chunk s)"
proof (induction chunk s rule: split_blank.induct)
  case (1 chunk)
  then show ?case using no_match_no_blank_line [of chunk "[]"] by simp
next
  case (2 chunk c cs)
  have chunk: "\<not> contains_blank_line chunk"
    by (rule no_match_no_blank_line [OF "2.prems"])
  show ?case
  proof (cases "blank_line_at (c # cs)")
    case None
    have "\<forall>a b. chunk @ [c] = a @ b \<and> b \<noteq> [] \<longrightarrow> blank_line_at (b @ cs) = None"
    proof (intro allI impI)
      fix a b assume ab: "chunk @ [c] = a @ b \<and> b \<noteq> []"
      then obtain b0 where b: "b = b0 @ [c]" and a: "chunk = a @ b0"
        by (cases b rule: rev_cases) auto
      show "blank_line_at (b @ cs) = None"
      proof (cases "b0 = []")
        case True
        then show ?thesis using None b by simp
      next
        case False
        then show ?thesis using "2.prems" a b by simp
      qed
    qed
    from "2.IH"(1) [OF None this] show ?thesis using None by simp
  next
    case (Some e)
    have "\<forall>a b. ([] :: jsstring) = a @ b \<and> b \<noteq> [] \<longrightarrow> blank_line_at (b @ drop e (c # cs)) = None"
      by simp
    from "2.IH"(2) [OF Some this] show ?thesis using Some chunk by simp
  qed
qed

lemma split_blank_no_blank_line:
  "list_all (\<lambda>ch. \<not> contains_blank_line ch) (split_blank [] s)"
  by (rule split_blank_maximal) simp

text \<open>
  C4, as the claim states it, fails: the chunks are tested after trimming but returned as
  they are. The block \<open>" A "\<close> is returned with its surrounding spaces.
\<close>

theorem questions_keep_white_space:
  "questions (ascii '' A '') = [ascii '' A ''] \<and> trim (ascii '' A '') = ascii ''A''"
  by (simp add: questions_def ascii_def blank_line_at_def trim_def is_space_def
      sanitize_def replace_units_def)

text \<open>
  C4, amended. For every text the segmenter cuts the text at blank-line separators: the
  chunks, put back together with separators that each are a newline, white space and a
  newline, give the text, and no chunk contains such a separator. The questions are the
  sanitized chunks that are not empty and not only white space, in the order of the text,
  with their surrounding white space kept; so no question is empty or only white space.
\<close>

theorem questions_segments:
  "\<exists>chunks seps.
      length chunks = Suc (length seps) \<and> interleave chunks seps = set1
      \<and> list_all blank_separator seps
      \<and> list_all (\<lambda>ch. \<not> contains_blank_line ch) chunks
      \<and> questions set1 = map sanitize (filter (\<lambda>ch. \<not> list_all is_space ch) chunks)
      \<and> list_all (\<lambda>q. q \<noteq> [] \<and> \<not> list_all is_space q \<and> trim q \<noteq> []) (questions set1)"
proof -
  obtain seps where seps: "length (split_blank [] set1) = Suc (length seps)"
    "interleave (split_blank [] set1) seps = [] @ set1" "list_all blank_separator seps"
    using split_blank_rebuild [of "[]" set1] by blast
  have "list_all (\<lambda>q. q \<noteq> [] \<and> \<not> list_all is_space q \<and> trim q \<noteq> []) (questions set1)"
    using trim_Nil_iff by (fastforce simp: questions_def list_all_iff)
  with seps split_blank_no_blank_line [of set1] questions_filter [of set1]
  have "length (split_blank [] set1) = Suc (length seps)
      \<and> interleave (split_blank [] set1) seps = set1
      \<and> list_all blank_separator seps
      \<and> list_all (\<lambda>ch. \<not> contains_blank_line ch) (split_blank [] set1)
      \<and> questions set1
          = map sanitize (filter (\<lambda>ch. \<not> list_all is_space ch) (split_blank [] set1))
      \<and> list_all (\<lambda>q. q \<noteq> [] \<and> \<not> list_all is_space q \<and> trim q \<noteq> []) (questions set1)"
    by simp
  then show ?thesis by blast
qed

subsection \<open>Response extractor\<close>

lemma any_then_bracket_None: "any_then_bracket s = None \<longleftrightarrow> 0x5D \<notin> set s"
  by (induction s) (auto split: option.splits)

lemma any_then_bracket_last:
  "0x5D \<notin> set post \<Longrightarrow> any_then_bracket (mid @ 0x5D # post) = Some (Suc (length mid))"
  by (induction mid) (simp_all add: any_then_bracket_None [THEN iffD2])

lemma match_array_skip: "0x5B \<notin> set pre \<Longrightarrow> match_array (pre @ s) = match_array s"
  by (induction pre) simp_all

lemma match_array_first_last:
  assumes "0x5B \<notin> set pre" and "0x5D \<notin> set post"
  shows "match_array (pre @ 0x5B # mid @ 0x5D # post) = Some (0x5B # mid @ [0x5D])"
  using assms by (simp add: match_array_skip any_then_bracket_last)

lemma match_array_None:
  "match_array s = None \<longleftrightarrow> \<not> (\<exists>pre rest. s = pre @ 0x5B # rest \<and> 0x5D \<in> set rest)"
proof (induction s)
  case Nil
  then show ?case by simp
next
  case (Cons c cs)
  show ?case
  proof (cases "c = 0x5B \<and> 0x5D \<in> set cs")
    case True
    then have "match_array (c # cs) \<noteq> None"
      by (auto simp: any_then_bracket_None split: option.splits)
    moreover from True have "c # cs = [] @ 0x5B # cs \<and> 0x5D \<in> set cs" by simp
    then have "\<exists>pre rest. c # cs = pre @ 0x5B # rest \<and> 0x5D \<in> set rest" by blast
    ultimately show ?thesis by simp
  next
    case False
    then have m: "match_array (c # cs) = match_array cs"
      by (auto simp: any_then_bracket_None [THEN iffD2] split: option.splits)
    have "(\<exists>pre rest. c # cs = pre @ 0x5B # rest \<and> 0x5D \<in> set rest)
          \<longleftrightarrow> (\<exists>pre rest. cs = pre @ 0x5B # rest \<and> 0x5D \<in> set rest)"
    proof
      assume "\<exists>pre rest. c # cs = pre @ 0x5B # rest \<and> 0x5D \<in> set rest"
      then obtain pre rest where p: "c # cs = pre @ 0x5B # rest" "0x5D \<in> set rest" by blast
      with False obtain pre' where "pre = c # pre'" by (cases pre) auto
      with p have "cs = pre' @ 0x5B # rest \<and> 0x5D \<in> set rest" by simp
      then show "\<exists>pre rest. cs = pre @ 0x5B # rest \<and> 0x5D \<in> set rest" by blast
    next
      assume "\<exists>pre rest. cs = pre @ 0x5B # rest \<and> 0x5D \<in> set rest"
      then obtain pre rest where "cs = pre @ 0x5B # rest" "0x5D \<in> set rest" by blast
      then have "c # cs = (c # pre) @ 0x5B # rest \<and> 0x5D \<in> set rest" by simp
      then show "\<exists>pre rest. c # cs = pre @ 0x5B # rest \<and> 0x5D \<in> set rest" by blast
    qed
    with m Cons.IH show ?thesis by simp
  qed
qed

text \<open>A text with a bracketed substring has a first [ and, after it, a last ].\<close>

lemma bracketed_first_last:
  assumes "s = a @ [0x5B] @ m @ [0x5D] @ b"
  shows "\<exists>pre mid post. s = pre @ [0x5B] @ mid @ [0x5D] @ post
           \<and> (0x5B :: code_unit) \<notin> set pre \<and> (0x5D :: code_unit) \<notin> set post"
proof -
  have "(0x5B :: code_unit) \<in> set s" using assms by simp
  then obtain pre rest where pre: "s = pre @ 0x5B # rest" "0x5B \<notin> set pre"
    by (meson split_list_first)
  have "0x5D \<in> set rest"
  proof -
    from assms pre have eq: "a @ 0x5B # (m @ 0x5D # b) = pre @ 0x5B # rest" by simp
    then consider us where "a = pre @ us" "us @ 0x5B # (m @ 0x5D # b) = 0x5B # rest"
      | us where "a @ us = pre" "0x5B # (m @ 0x5D # b) = us @ 0x5B # rest"
      by (auto simp: append_eq_append_conv2)
    then show ?thesis
    proof cases
      case 1
      then show ?thesis by (cases us) auto
    next
      case 2
      then show ?thesis using pre(2) by (cases us) auto
    qed
  qed
  then obtain mid post where "rest = mid @ 0x5D # post" "0x5D \<notin> set post"
    by (meson split_list_last)
  with pre have "s = pre @ [0x5B] @ mid @ [0x5D] @ post \<and> 0x5B \<notin> set pre \<and> 0x5D \<notin> set post"
    by simp
  then show ?thesis by blast
qed

lemma extract_array_found:
  assumes "strip_fences raw = pre @ [0x5B] @ mid @ [0x5D] @ post"
    and "0x5B \<notin> set pre" and "0x5D \<notin> set post"
  shows "extract_array raw = [0x5B] @ mid @ [0x5D]"
  using match_array_first_last [OF assms(2,3), of mid] assms(1)
  by (simp add: extract_array_def)

lemma extract_array_not_found:
  assumes "\<not> (\<exists>pre mid post. strip_fences raw = pre @ [0x5B] @ mid @ [0x5D] @ post)"
  shows "extract_array raw = strip_fences raw"
proof -
  have "\<not> (\<exists>pre rest. strip_fences raw = pre @ 0x5B # rest \<and> 0x5D \<in> set rest)"
  proof
    assume "\<exists>pre rest. strip_fences raw = pre @ 0x5B # rest \<and> 0x5D \<in> set rest"
    then obtain pre rest where p: "strip_fences raw = pre @ 0x5B # rest" "0x5D \<in> set rest"
      by blast
    then obtain mid post where "rest = mid @ 0x5D # post" by (meson split_list)
    with p have "strip_fences raw = pre @ [0x5B] @ mid @ [0x5D] @ post" by simp
    with assms show False by blast
  qed
  then have "match_array (strip_fences raw) = None" by (simp add: match_array_None)
  then show ?thesis by (simp add: extract_array_def)
qed

lemma strip_fences_example:
  "strip_fences (ascii ''Sure! '' @ [0x60, 0x60, 0x60] @ ascii ''json'' @ [0x0A]
       @ ascii ''[{\"a\":1}]'' @ [0x0A, 0x60, 0x60, 0x60] @ ascii '' Thanks'')
   = (ascii ''Sure! '' @ [0x0A]) @ [0x5B] @ ascii ''{\"a\":1}'' @ [0x5D] @ ([0x0A] @ ascii '' Thanks'')"
  by (simp add: strip_fences_def trim_def is_space_def ascii_def fence_at_def fence_json_at_def)

text \<open>
  C7. When the text left after removing the fence markers and trimming contains a
  bracketed substring, it has a first \<open>[\<close> and a last \<open>]\<close>, and the extractor returns
  exactly the text from the one to the other, dropping what stands before and after. For
  the input \<^verbatim>\<open>Sure! ```json\n[{"a":1}]\n``` Thanks\<close> it returns \<^verbatim>\<open>[{"a":1}]\<close>.
\<close>

theorem extract_array_first_to_last:
  "(strip_fences raw = a @ [0x5B] @ m @ [0x5D] @ b \<longrightarrow>
      (\<exists>pre mid post. strip_fences raw = pre @ [0x5B] @ mid @ [0x5D] @ post
          \<and> 0x5B \<notin> set pre \<and> 0x5D \<notin> set post
          \<and> extract_array raw = [0x5B] @ mid @ [0x5D]))
   \<and> extract_array (ascii ''Sure! '' @ [0x60, 0x60, 0x60] @ ascii ''json'' @ [0x0A]
         @ ascii ''[{\"a\":1}]'' @ [0x0A, 0x60, 0x60, 0x60] @ ascii '' Thanks'')
       = ascii ''[{\"a\":1}]''"
proof (intro conjI impI)
  assume "strip_fences raw = a @ [0x5B] @ m @ [0x5D] @ b"
  then obtain pre mid post where d: "strip_fences raw = pre @ [0x5B] @ mid @ [0x5D] @ post"
    "0x5B \<notin> set pre" "0x5D \<notin> set post"
    using bracketed_first_last by blast
  then have "extract_array raw = [0x5B] @ mid @ [0x5D]" by (rule extract_array_found)
  with d show "\<exists>pre mid post. strip_fences raw = pre @ [0x5B] @ mid @ [0x5D] @ post
      \<and> 0x5B \<notin> set pre \<and> 0x5D \<notin> set post \<and> extract_array raw = [0x5B] @ mid @ [0x5D]"
    by blast
next
  have "extract_array (ascii ''Sure! '' @ [0x60, 0x60, 0x60] @ ascii ''json'' @ [0x0A]
         @ ascii ''[{\"a\":1}]'' @ [0x0A, 0x60, 0x60, 0x60] @ ascii '' Thanks'')
       = [0x5B] @ ascii ''{\"a\":1}'' @ [0x5D]"
    by (rule extract_array_found [OF strip_fences_example]) (simp_all add: ascii_def)
  then show "extract_array (ascii ''Sure! '' @ [0x60, 0x60, 0x60] @ ascii ''json'' @ [0x0A]
         @ ascii ''[{\"a\":1}]'' @ [0x0A, 0x60, 0x60, 0x60] @ ascii '' Thanks'')
       = ascii ''[{\"a\":1}]''"
    by (simp add: ascii_def)
qed

theorem extract_array_first_to_last_witness:
  "strip_fences (ascii ''see [1] and [2].'') = ascii ''see '' @ [0x5B] @ ascii ''1'' @ [0x5D] @ ascii '' and [2].''
   \<and> extract_array (ascii ''see [1] and [2].'') = ascii ''[1] and [2]''"
proof -
  have s: "strip_fences (ascii ''see [1] and [2].'')
      = ascii ''see '' @ [0x5B] @ ascii ''1'' @ [0x5D] @ ascii '' and [2].''"
    by (simp add: strip_fences_def trim_def is_space_def ascii_def fence_at_def fence_json_at_def)
  with extract_array_first_to_last [of "ascii ''see [1] and [2].''" "ascii ''see ''" "ascii ''1''"
      "ascii '' and [2].''"]
  obtain pre mid post where d:
    "strip_fences (ascii ''see [1] and [2].'') = pre @ [0x5B] @ mid @ [0x5D] @ post"
    "0x5B \<notin> set pre" "0x5D \<notin> set post"
    "extract_array (ascii ''see [1] and [2].'') = [0x5B] @ mid @ [0x5D]"
    by blast
  have "match_array (strip_fences (ascii ''see [1] and [2].'')) = Some ([0x5B] @ mid @ [0x5D])"
    using d(1) match_array_first_last [OF d(2,3), of mid] by simp
  moreover have "match_array (strip_fences (ascii ''see [1] and [2].'')) = Some (ascii ''[1] and [2]'')"
    unfolding s by (simp add: ascii_def)
  ultimately have "[0x5B] @ mid @ [0x5D] = ascii ''[1] and [2]''" by simp
  with d(4) s show ?thesis by simp
qed

subsection \<open>JavaScript numbers\<close>

text \<open>
  \<open>exponent\<close> brackets a number between two powers of two. Rounding leaves a double as it
  is, and moves any other number of the normal range by at most \<open>2^(-53)\<close> of its
  magnitude. The quotient of an integer of magnitude below \<open>2^52\<close> by the length of an
  array is therefore rounded by \<open>Math.round\<close> like the exact quotient.
\<close>

lemma powi_pos [simp]: "0 < (2::rat) powi k"
  by (simp add: power_int_def)

lemma powi_mono: "a \<le> b \<Longrightarrow> (2::rat) powi a \<le> 2 powi b"
  by (rule power_int_increasing) simp_all

lemma powi_less_cancel: "(2::rat) powi a < 2 powi b \<Longrightarrow> a < b"
  using powi_mono [of b a] by (cases "a < b") auto

lemma exponent_bounds:
  assumes "x \<noteq> 0"
  shows "2 powi exponent x \<le> \<bar>x\<bar>" and "\<bar>x\<bar> < 2 powi (exponent x + 1)"
proof -
  obtain p q where pq: "quotient_of \<bar>x\<bar> = (p, q)" by (cases "quotient_of \<bar>x\<bar>")
  have q: "0 < q" using quotient_of_denom_pos [OF pq] .
  have x: "\<bar>x\<bar> = of_int p / of_int q" using quotient_of_div [OF pq] .
  have "0 < \<bar>x\<bar>" using assms by simp
  with x q have p: "0 < p" by (simp add: zero_less_divide_iff)
  define d where "d = bitlen p - bitlen q"
  have bp: "0 \<le> bitlen p" and bq: "0 \<le> bitlen q" by (simp_all add: bitlen_nonneg)
  have bl: "(2::rat) powi (bitlen n - 1) \<le> of_int n \<and> of_int n < (2::rat) powi (bitlen n)"
    if n: "0 < n" for n
  proof -
    from bitlen_bounds [OF n] have a: "2 ^ nat (bitlen n - 1) \<le> n" and b: "n < 2 ^ nat (bitlen n)"
      by simp_all
    from b n have "0 < bitlen n" by (cases "bitlen n \<le> 0") auto
    then have c: "0 \<le> bitlen n - 1" "0 \<le> bitlen n" by simp_all
    from a have "(of_int (2 ^ nat (bitlen n - 1)) :: rat) \<le> of_int n" by (simp only: of_int_le_iff)
    moreover from b have "(of_int n :: rat) < of_int (2 ^ nat (bitlen n))" by (simp only: of_int_less_iff)
    ultimately show ?thesis using c by (simp add: power_int_def)
  qed
  note p12 = bl [OF p] and q12 = bl [OF q]
  have qpos: "(0::rat) < of_int q" using q by simp
  have "of_int p / of_int q < (2::rat) powi (bitlen p) / 2 powi (bitlen q - 1)"
    using p12 q12 qpos p by (intro frac_less) simp_all
  also have "\<dots> = 2 powi (bitlen p - (bitlen q - 1))"
    by (rule power_int_diff [symmetric]) simp
  also have "bitlen p - (bitlen q - 1) = d + 1"
    by (simp add: d_def)
  finally have up: "\<bar>x\<bar> < 2 powi (d + 1)" by (simp add: x)
  have "(2::rat) powi (bitlen p - 1) / 2 powi (bitlen q) < of_int p / of_int q"
    using p12 q12 qpos by (intro frac_less2) simp_all
  moreover have "(2::rat) powi (bitlen p - 1) / 2 powi (bitlen q) = 2 powi (bitlen p - 1 - bitlen q)"
    by (rule power_int_diff [symmetric]) simp
  moreover have "bitlen p - 1 - bitlen q = d - 1"
    by (simp add: d_def)
  ultimately have lo: "2 powi (d - 1) < \<bar>x\<bar>" by (simp add: x)
  have e: "exponent x = (if 2 powi d \<le> \<bar>x\<bar> then d else d - 1)"
    by (simp add: exponent_def pq d_def Let_def)
  show "2 powi exponent x \<le> \<bar>x\<bar>" using lo by (simp add: e)
  show "\<bar>x\<bar> < 2 powi (exponent x + 1)" using up by (auto simp: e)
qed

lemma round_half_even_of_int [simp]: "round_half_even (of_int i) = i"
  by (simp add: round_half_even_def)

lemma round_half_even_error: "\<bar>of_int (round_half_even r) - r\<bar> \<le> 1 / 2"
proof -
  have "of_int \<lfloor>r\<rfloor> \<le> r" "r < of_int \<lfloor>r\<rfloor> + 1" by linarith+
  then show ?thesis by (simp add: round_half_even_def Let_def abs_le_iff)
qed

lemma exponent_lt:
  assumes "x \<noteq> 0" and "\<bar>x\<bar> < 2 powi k"
  shows "exponent x < k"
proof -
  from exponent_bounds(1) [OF assms(1)] assms(2) have "(2::rat) powi exponent x < 2 powi k" by simp
  then show ?thesis by (rule powi_less_cancel)
qed

lemma exponent_ge:
  assumes "x \<noteq> 0" and "2 powi k \<le> \<bar>x\<bar>"
  shows "k \<le> exponent x"
proof -
  from exponent_bounds(2) [OF assms(1)] assms(2) have "(2::rat) powi k < 2 powi (exponent x + 1)" by simp
  then have "k < exponent x + 1" by (rule powi_less_cancel)
  then show ?thesis by simp
qed

lemma round_double_exact:
  assumes x: "x = of_int m * 2 powi k" and m: "\<bar>m\<bar> < 2 ^ 53" and k: "- 1074 \<le> k"
  shows "round_double x = x"
proof (cases "x = 0")
  case True
  then show ?thesis by (simp add: round_double_def)
next
  case False
  define e where "e = max (exponent x) (- 1022)"
  have "\<bar>x\<bar> = of_int \<bar>m\<bar> * 2 powi k" by (simp add: x abs_mult)
  also have "\<dots> < 2 ^ 53 * 2 powi k"
    using m by (intro mult_strict_right_mono) (simp_all flip: of_int_less_iff [where 'a = rat])
  also have "\<dots> = 2 powi (53 + k)" by (simp add: power_int_add)
  finally have "exponent x < 53 + k" by (rule exponent_lt [OF False])
  with k have e: "e - 52 \<le> k" by (simp add: e_def)
  define j where "j = nat (k - (e - 52))"
  have "(2::rat) powi k = 2 powi (int j + (e - 52))" using e by (simp add: j_def)
  also have "\<dots> = 2 ^ j * 2 powi (e - 52)" by (simp add: power_int_add)
  finally have kk: "(2::rat) powi k = 2 ^ j * 2 powi (e - 52)" .
  have "x / 2 powi (e - 52) = of_int (m * 2 ^ j)" by (simp add: x kk)
  then have "round_half_even (x / 2 powi (e - 52)) = m * 2 ^ j"
    by (simp only: round_half_even_of_int)
  then have "of_int (round_half_even (x / 2 powi (e - 52))) * 2 powi (e - 52) = x"
    by (simp add: x kk)
  then show ?thesis using False by (simp add: round_double_def e_def Let_def)
qed

lemma round_double_error:
  assumes "2 powi (- 1022) \<le> \<bar>x\<bar>"
  shows "\<bar>round_double x - x\<bar> \<le> \<bar>x\<bar> / 2 ^ 53"
proof -
  have x: "x \<noteq> 0" using assms powi_pos [of "- 1022"] by auto
  from exponent_ge [OF x assms] have e: "max (exponent x) (- 1022) = exponent x" by simp
  define u :: rat where "u = 2 powi (exponent x - 52)"
  have u: "0 < u" by (simp add: u_def)
  have r: "round_double x = of_int (round_half_even (x / u)) * u"
    using x by (simp add: round_double_def e u_def Let_def)
  have "round_double x - x = (of_int (round_half_even (x / u)) - x / u) * u"
    using u by (simp add: r algebra_simps)
  then have "\<bar>round_double x - x\<bar> = \<bar>of_int (round_half_even (x / u)) - x / u\<bar> * u"
    using u by (simp add: abs_mult)
  also have "\<dots> \<le> 1 / 2 * u"
    using u round_half_even_error [of "x / u"] by (intro mult_right_mono) simp_all
  also have "1 / 2 * u = 2 powi (exponent x) / 2 ^ 53"
    by (simp add: u_def power_int_diff)
  also have "\<dots> \<le> \<bar>x\<bar> / 2 ^ 53"
    using exponent_bounds(1) [OF x] by (simp add: divide_right_mono)
  finally show ?thesis .
qed

lemma to_Number_exact:
  assumes "x = of_int m * 2 powi k" and "\<bar>m\<bar> < 2 ^ 53" and "- 1074 \<le> k" and "\<bar>x\<bar> < 2 ^ 1024"
  shows "to_Number x = Num x"
  using round_double_exact [OF assms(1-3)] assms(4) by (simp add: to_Number_def)

lemma to_Number_of_int: "\<bar>i\<bar> < 2 ^ 53 \<Longrightarrow> to_Number (of_int i) = Num (of_int i)"
proof (rule to_Number_exact [where m = i and k = 0])
  assume i: "\<bar>i\<bar> < 2 ^ 53"
  then have "\<bar>i\<bar> < 2 ^ 1024" by (rule less_trans) simp
  then have "(of_int \<bar>i\<bar> :: rat) < of_int (2 ^ 1024)" by (simp only: of_int_less_iff)
  then show "\<bar>rat_of_int i\<bar> < 2 ^ 1024" by simp
qed simp_all

lemma to_Number_0 [simp]: "to_Number 0 = Num 0"
  by (simp add: to_Number_def round_double_def)

lemma quotient_rounding:
  fixes S :: int and n :: nat
  assumes S: "\<bar>S\<bar> < 2 ^ 52" and n0: "0 < n" and n32: "n < 2 ^ 32"
  shows "Math_round (js_div (Num (of_int S)) (of_nat n))
         = Num (of_int \<lfloor>(of_int S :: rat) / of_nat n + 1 / 2\<rfloor>)"
proof (cases "S = 0")
  case True
  then show ?thesis using n0 by simp
next
  case False
  define x :: rat where "x = of_int S / of_nat n"
  define y where "y = round_double x"
  define k where "k = \<lfloor>x + 1 / 2\<rfloor>"
  define a :: rat where "a = of_int \<bar>S\<bar>"
  define m :: rat where "m = of_nat n"
  have npos: "(0::rat) < of_nat n" using n0 by simp
  have x0: "x \<noteq> 0" using False n0 by (simp add: x_def)
  have absx: "\<bar>x\<bar> = a / m" by (simp add: x_def a_def m_def)
  have "(of_int \<bar>S\<bar> :: rat) < of_int (2 ^ 52)" using S by (simp only: of_int_less_iff)
  then have a52: "a < 2 ^ 52" by (simp add: a_def)
  have "1 \<le> \<bar>S\<bar>" using False by simp
  then have "(of_int 1 :: rat) \<le> of_int \<bar>S\<bar>" by (simp only: of_int_le_iff)
  then have a1: "1 \<le> a" by (simp add: a_def)
  have "(of_nat n :: rat) < of_nat (2 ^ 32)" using n32 by (simp only: of_nat_less_iff)
  then have m32: "m < 2 ^ 32" by (simp add: m_def)
  have m1: "1 \<le> m" using n0 by (simp add: m_def)
  have xlt: "\<bar>x\<bar> < 2 ^ 52"
  proof -
    have "a / m \<le> a / 1" using a1 m1 by (intro divide_left_mono) simp_all
    with a52 show ?thesis by (simp add: absx)
  qed
  have xge: "2 powi (- 1022) \<le> \<bar>x\<bar>"
  proof -
    have "(2::rat) powi (- 1022) \<le> 2 powi (- 32)" by (rule powi_mono) simp
    also have "\<dots> = 1 / 2 ^ 32" by (simp add: power_int_minus_divide)
    also have "\<dots> \<le> 1 / m" using m32 m1 by (intro divide_left_mono) simp_all
    also have "\<dots> \<le> a / m" using a1 m1 by (intro divide_right_mono) simp_all
    finally show ?thesis by (simp add: absx)
  qed
  have err: "\<bar>y - x\<bar> \<le> \<bar>x\<bar> / 2 ^ 53"
    unfolding y_def by (rule round_double_error [OF xge])
  have err2: "\<bar>y - x\<bar> < 1 / (2 * of_nat n)"
  proof -
    have "\<bar>x\<bar> / 2 ^ 53 = a / (2 ^ 53 * m)" by (simp add: absx)
    also have "\<dots> < 2 ^ 52 / (2 ^ 53 * m)"
      using a52 m1 by (intro divide_strict_right_mono) simp_all
    also have "\<dots> = 1 / (2 * m)" by simp
    finally show ?thesis using err by (simp add: m_def)
  qed
  have ylt: "\<bar>y\<bar> < 2 ^ 1024"
  proof -
    have "1 / (2 * m) \<le> 1 / 1" using m1 by (intro divide_left_mono) simp_all
    then have h: "1 / (2 * of_nat n) \<le> (1::rat)" by (simp add: m_def)
    have "\<bar>y\<bar> \<le> \<bar>y - x\<bar> + \<bar>x\<bar>" by simp
    also have "\<dots> < 1 + 2 ^ 52" using err2 xlt h by linarith
    also have "\<dots> \<le> (2::rat) ^ 1024" by simp
    finally show ?thesis .
  qed
  have num: "js_div (Num (of_int S)) (of_nat n) = Num y"
    using n0 ylt by (simp add: to_Number_def x_def [symmetric] y_def [symmetric])
  have k1: "of_int k \<le> x + 1 / 2" and k2: "x + 1 / 2 < of_int k + 1"
    unfolding k_def by linarith+
  have "\<lfloor>y + 1 / 2\<rfloor> = k"
  proof (cases "x + 1 / 2 = of_int k")
    case True
    then have "x = of_int (2 * k - 1) * 2 powi (- 1)" by (simp add: power_int_minus_divide field_simps)
    moreover have "\<bar>2 * k - 1\<bar> < 2 ^ 53"
    proof -
      from True have "of_int (2 * k - 1) = 2 * x" by simp
      then have "\<bar>rat_of_int (2 * k - 1)\<bar> = 2 * \<bar>x\<bar>" by (simp only: abs_mult abs_numeral)
      with xlt have "rat_of_int \<bar>2 * k - 1\<bar> < of_int (2 ^ 53)" by simp
      then show ?thesis by (simp only: of_int_less_iff)
    qed
    ultimately have "y = x" unfolding y_def by (rule round_double_exact) simp
    then show ?thesis by (simp add: k_def)
  next
    case ne: False
    have int_pos: "1 \<le> (a::int)" if "(0::rat) < of_int a" for a using that by simp
    have lo: "1 / (2 * of_nat n) \<le> x + 1 / 2 - of_int k"
    proof -
      have eq: "(x + 1 / 2 - of_int k) * (2 * of_nat n) = of_int (2 * S + int n - 2 * k * int n)"
        using npos by (simp add: x_def field_simps)
      have "0 < (x + 1 / 2 - of_int k) * (2 * of_nat n)" using k1 ne npos by simp
      then have "1 \<le> 2 * S + int n - 2 * k * int n" unfolding eq by (rule int_pos)
      then have "(of_int 1 :: rat) \<le> of_int (2 * S + int n - 2 * k * int n)" by (simp only: of_int_le_iff)
      then have "1 \<le> (x + 1 / 2 - of_int k) * (2 * of_nat n)" unfolding eq by simp
      then show ?thesis using npos by (simp add: field_simps)
    qed
    have hi: "1 / (2 * of_nat n) \<le> of_int k + 1 - (x + 1 / 2)"
    proof -
      have eq: "(of_int k + 1 - (x + 1 / 2)) * (2 * of_nat n) = of_int (2 * k * int n + int n - 2 * S)"
        using npos by (simp add: x_def field_simps)
      have "0 < (of_int k + 1 - (x + 1 / 2)) * (2 * of_nat n)" using k2 npos by simp
      then have "1 \<le> 2 * k * int n + int n - 2 * S" unfolding eq by (rule int_pos)
      then have "(of_int 1 :: rat) \<le> of_int (2 * k * int n + int n - 2 * S)" by (simp only: of_int_le_iff)
      then have "1 \<le> (of_int k + 1 - (x + 1 / 2)) * (2 * of_nat n)" unfolding eq by simp
      then show ?thesis using npos by (simp add: field_simps)
    qed
    from lo hi err2 have "of_int k \<le> y + 1 / 2" "y + 1 / 2 < of_int k + 1" by linarith+
    then show ?thesis by linarith
  qed
  then have "Math_round (Num y) = Num (of_int k)" by simp
  then show ?thesis unfolding num k_def x_def .
qed


lemma exponent_eqI:
  assumes "2 powi e \<le> \<bar>x\<bar>" and "\<bar>x\<bar> < 2 powi (e + 1)"
  shows "exponent x = e"
proof -
  have x: "x \<noteq> 0"
  proof
    assume "x = 0"
    with assms(1) have "(2::rat) powi e \<le> 0" by simp
    with powi_pos [of e] show False by linarith
  qed
  from exponent_ge [OF x assms(1)] exponent_lt [OF x assms(2)] show ?thesis by simp
qed

lemma floor_numeral_quotient [simp]:
  "\<lfloor>(numeral a :: rat) / numeral b\<rfloor> = numeral a div numeral b"
  using floor_divide_of_int_eq [of "numeral a" "numeral b", where ?'a = rat] by simp

lemma to_Number_1 [simp]: "to_Number 1 = Num 1"
  using to_Number_of_int [of 1] by simp

text \<open>
  The Higher Order percentage of 23 evaluations out of 40: the quotient \<open>23 / 40\<close> is
  rounded to a double just below it, the product with \<open>100\<close> to the double just below
  \<open>57.5\<close>, and \<open>Math.round\<close> yields 57 where the exact value \<open>57.5\<close> would give 58.
\<close>

lemma higher_order_23_of_40: "Math_round (js_times (js_div (Num 23) 40) 100) = Num 57"
proof -
  have "exponent (23 / 40) = - 1" by (rule exponent_eqI) simp_all
  then have a: "to_Number (23 / 40) = Num (2589569785738035 / 4503599627370496)"
    by (simp add: to_Number_def round_double_def round_half_even_def)
  have "exponent (64739244643450875 / 1125899906842624) = 5" by (rule exponent_eqI) simp_all
  then have b: "to_Number (64739244643450875 / 1125899906842624)
      = Num (8092405580431359 / 140737488355328)"
    by (simp add: to_Number_def round_double_def round_half_even_def)
  show ?thesis by (simp add: a b)
qed

lemma to_Number_numeral [simp]:
  "(numeral k :: int) < 2 ^ 53 \<Longrightarrow> to_Number (numeral k) = Num (numeral k)"
  using to_Number_of_int [of "numeral k"] by simp

lemma to_Number_half [simp]: "to_Number (1 / 2) = Num (1 / 2)"
  by (rule to_Number_exact [where m = 1 and k = "- 1"]) simp_all

lemma number_value_to_Number: "to_Number v = Num y \<Longrightarrow> number_value v = JNum y"
  by (simp add: to_Number_def number_value_def Let_def split: if_splits)

lemma number_value_numeral [simp]:
  "(numeral k :: int) < 2 ^ 53 \<Longrightarrow> number_value (numeral k) = JNum (numeral k)"
  by (rule number_value_to_Number) (rule to_Number_numeral)

text \<open>
  A literal beyond the range of the doubles is an infinity, and one below the smallest
  positive double is zero: \<open>JSON.parse("1e400")\<close> is \<open>Infinity\<close> and
  \<open>JSON.parse("1e-400")\<close> is \<open>0\<close>.
\<close>

lemma number_value_out_of_range:
  "number_value (10 ^ 400) = JPosInfinity" "number_value (1 / 10 ^ 400) = JNum 0"
proof -
  have "exponent (10 ^ 400) = 1328" by (rule exponent_eqI) simp_all
  then show "number_value (10 ^ 400) = JPosInfinity"
    by (simp add: number_value_def round_double_def round_half_even_def)
  have "exponent (1 / 10 ^ 400) = - 1329" by (rule exponent_eqI) simp_all
  then show "number_value (1 / 10 ^ 400) = JNum 0"
    by (simp add: number_value_def round_double_def round_half_even_def)
qed

lemma number_value_not_array: "number_value v \<noteq> JArr qs"
  by (simp add: number_value_def Let_def)

lemma Math_round_numeral [simp]: "Math_round (Num (numeral k)) = Num (numeral k)"
proof -
  have "\<lfloor>(of_int (numeral k) :: rat) + 1 / 2\<rfloor> = numeral k" by linarith
  then show ?thesis by simp
qed

subsection \<open>Aggregator\<close>

lemma foldl_js_plus_exact:
  "\<bar>a\<bar> + sum_list (map abs xs) < 2 ^ 53 \<Longrightarrow>
   foldl (\<lambda>acc x. js_plus acc (to_Number (of_int x))) (Num (of_int a)) xs
     = Num (of_int (a + sum_list xs))"
proof (induction xs arbitrary: a)
  case Nil
  then show ?case by simp
next
  case (Cons x xs)
  have "0 \<le> sum_list (map abs xs)" by (rule sum_list_nonneg) auto
  with Cons.prems have x: "\<bar>x\<bar> < 2 ^ 53" and ax: "\<bar>a + x\<bar> < 2 ^ 53"
    and rest: "\<bar>a + x\<bar> + sum_list (map abs xs) < 2 ^ 53"
    by simp_all
  have "js_plus (Num (of_int a)) (to_Number (of_int x)) = Num (of_int (a + x))"
    using to_Number_of_int [OF x] to_Number_of_int [OF ax] by simp
  then show ?case using Cons.IH [OF rest] by (simp add: add.assoc)
qed

lemma foldl_tally_sums:
  "totalScore_acc (foldl tally t evs)
     = foldl (\<lambda>acc x. js_plus acc (to_Number (of_int x))) (totalScore_acc t) (map overallScore evs)"
  "spelling (foldl tally t evs)
     = foldl (\<lambda>acc x. js_plus acc (to_Number (of_int x))) (spelling t) (map spellingScore evs)"
  "grammar (foldl tally t evs)
     = foldl (\<lambda>acc x. js_plus acc (to_Number (of_int x))) (grammar t) (map grammarScore evs)"
  "clarity (foldl tally t evs)
     = foldl (\<lambda>acc x. js_plus acc (to_Number (of_int x))) (clarity t) (map clarityScore evs)"
  by (induction evs arbitrary: t) (simp_all add: tally_def)

lemma sum_within_double_precision:
  assumes "within_double_precision f evs"
  shows "foldl (\<lambda>acc x. js_plus acc (to_Number (of_int x))) (Num 0) (map f evs)
         = Num (of_int (sum_list (map f evs)))"
proof -
  have "sum_list (map abs (map f evs)) = sum_list (map (\<lambda>q. \<bar>f q\<bar>) evs)"
    by (simp add: comp_def)
  with assms have "\<bar>0 :: int\<bar> + sum_list (map abs (map f evs)) < 2 ^ 53"
    by (simp only: within_double_precision_def) simp
  from foldl_js_plus_exact [OF this] show ?thesis by simp
qed

lemma forEach_tally_sums:
  "within_double_precision overallScore evs \<Longrightarrow>
     totalScore_acc (forEach_tally evs) = Num (of_int (sum_list (map overallScore evs)))"
  "within_double_precision spellingScore evs \<Longrightarrow>
     spelling (forEach_tally evs) = Num (of_int (sum_list (map spellingScore evs)))"
  "within_double_precision grammarScore evs \<Longrightarrow>
     grammar (forEach_tally evs) = Num (of_int (sum_list (map grammarScore evs)))"
  "within_double_precision clarityScore evs \<Longrightarrow>
     clarity (forEach_tally evs) = Num (of_int (sum_list (map clarityScore evs)))"
  by (simp_all add: forEach_tally_def foldl_tally_sums zero_totals_def
      sum_within_double_precision)

text \<open>
  Scores in the range of the data model, from 0 to 100, are within double precision in
  every array.
\<close>

lemma data_model_within_double_precision:
  assumes "list_all (\<lambda>q. 0 \<le> f q \<and> f q \<le> 100) evs" and "length evs < 2 ^ 32"
  shows "within_double_precision f evs"
proof -
  from assms(1) have "sum_list (map (\<lambda>q. \<bar>f q\<bar>) evs) \<le> 100 * int (length evs)"
    by (induction evs) auto
  also from assms(2) have "100 * int (length evs) < 100 * 2 ^ 32" by simp
  also have "(100 :: int) * 2 ^ 32 < 2 ^ 52" by simp
  finally show ?thesis by (simp only: within_double_precision_def)
qed

lemma floor_nearest_half_up: "nearest_half_up x \<lfloor>x + 1 / 2\<rfloor>"
  unfolding nearest_half_up_def by linarith

lemma avg_quotient:
  assumes "evs \<noteq> []" and "length evs < 2 ^ 32" and "\<bar>S\<bar> < 2 ^ 52"
  shows "avg evs (Num (of_int S))
         = Num (of_int \<lfloor>(of_int S :: rat) / of_nat (length evs) + 1 / 2\<rfloor>)"
proof -
  from assms(1) have n: "0 < length evs" by simp
  have "avg evs (Num (of_int S)) = Math_round (js_div (Num (of_int S)) (of_nat (length evs)))"
    using assms(1) by (simp add: avg_def del: js_div.simps)
  then show ?thesis by (simp only: quotient_rounding [OF assms(3) n assms(2)])
qed

lemma floor_half_up_int:
  assumes "0 < n"
  shows "\<lfloor>(of_int a :: rat) / of_nat n + 1 / 2\<rfloor> = (2 * a + int n) div (2 * int n)"
proof -
  have "(of_int a :: rat) / of_nat n + 1 / 2 = of_int (2 * a + int n) / of_int (2 * int n)"
    using assms by (simp add: field_simps)
  then show ?thesis by (simp only: floor_divide_of_int_eq)
qed

lemma avg_mean:
  assumes "evs \<noteq> []" and "length evs < 2 ^ 32" and "within_double_precision f evs"
  shows "\<exists>r. avg evs (Num (of_int (sum_list (map f evs)))) = Num (of_int r)
             \<and> nearest_half_up (mean f evs) r"
proof -
  have "\<bar>sum_list (map f evs)\<bar> \<le> sum_list (map abs (map f evs))" by (rule sum_list_abs)
  also have "sum_list (map abs (map f evs)) = sum_list (map (\<lambda>q. \<bar>f q\<bar>) evs)"
    by (simp add: comp_def)
  finally have S: "\<bar>sum_list (map f evs)\<bar> < 2 ^ 52"
    using assms(3) by (simp only: within_double_precision_def)
  from avg_quotient [OF assms(1,2) S]
  have "avg evs (Num (of_int (sum_list (map f evs)))) = Num (of_int \<lfloor>mean f evs + 1 / 2\<rfloor>)"
    by (simp only: mean_def)
  then show ?thesis using floor_nearest_half_up [of "mean f evs"] by blast
qed

lemma aggregate_fields:
  "totalScore (aggregate evs) = avg evs (totalScore_acc (forEach_tally evs))"
  "map label (metrics (aggregate evs)) = map ascii [''Spelling'', ''Grammar'', ''Clarity'', ''Bloom Level'', ''Higher Order'', ''CO Match'', ''Syllabus Match'']"
  "score (metrics (aggregate evs) ! 0) = Number (avg evs (spelling (forEach_tally evs)))"
  "score (metrics (aggregate evs) ! 1) = Number (avg evs (grammar (forEach_tally evs)))"
  "score (metrics (aggregate evs) ! 2) = Number (avg evs (clarity (forEach_tally evs)))"
  "score (metrics (aggregate evs) ! 3) = Text (mostCommonBloom (bloomCounts (forEach_tally evs)))"
  "score (metrics (aggregate evs) ! 4) = Number (Math_round (js_times (js_div (Num (of_nat (higherOrderCount (forEach_tally evs)))) (of_nat (length evs))) 100))"
  by (simp_all add: aggregate_def Let_def)

lemma array_index_Apply: "array_index (ascii ''Apply'') = None"
  by (simp add: array_index_def ascii_def)

text \<open>
  C1 does not hold of the code. For the empty sequence the four averages are \<open>0\<close> and the
  Bloom level is \<open>N/A\<close>, but the Higher Order percentage is computed without the guard
  that \<open>avg\<close> has: it is \<open>Math.round((0 / 0) * 100)\<close>, that is \<open>NaN\<close>.
\<close>

theorem aggregate_empty_higher_order_NaN:
  "totalScore (aggregate []) = Num 0
   \<and> map score (metrics (aggregate [])) =
       [Number (Num 0), Number (Num 0), Number (Num 0), Text (ascii ''N/A''),
        Number NaN, Number (Num 70), Number (Num 75)]"
  by (simp add: aggregate_def forEach_tally_def zero_totals_def avg_def
      mostCommonBloom_def Object_entries_def)

text \<open>
  C6, as the claim states it, fails: the sums and the quotient are computed on doubles.
  For two evaluations with overall scores \<open>2^53\<close> and \<open>1\<close> the sum \<open>2^53 + 1\<close> is not a
  double and the loop keeps \<open>2^53\<close>, so \<open>totalScore\<close> is \<open>2^52\<close>, while the mean
  \<open>2^52 + 1/2\<close> rounds to \<open>2^52 + 1\<close>. For three evaluations with overall scores
  \<open>6755399441055745\<close>, \<open>0\<close> and \<open>0\<close> the sum is exact, but the quotient, one third above
  \<open>2251799813685248\<close>, is not a double: the nearest one is \<open>2251799813685248.5\<close>, which
  \<open>Math.round\<close> takes up to \<open>2251799813685249\<close>.
\<close>

theorem aggregate_average_beyond_double_precision:
  "totalScore (aggregate
       [\<lparr> bloom = None, higherOrder = False, clarityScore = 0, grammarScore = 0,
          spellingScore = 0, overallScore = 9007199254740992 \<rparr>,
        \<lparr> bloom = None, higherOrder = False, clarityScore = 0, grammarScore = 0,
          spellingScore = 0, overallScore = 1 \<rparr>]) = Num 4503599627370496
   \<and> nearest_half_up (mean overallScore
       [\<lparr> bloom = None, higherOrder = False, clarityScore = 0, grammarScore = 0,
          spellingScore = 0, overallScore = 9007199254740992 \<rparr>,
        \<lparr> bloom = None, higherOrder = False, clarityScore = 0, grammarScore = 0,
          spellingScore = 0, overallScore = 1 \<rparr>]) 4503599627370497
   \<and> totalScore (aggregate
       [\<lparr> bloom = None, higherOrder = False, clarityScore = 0, grammarScore = 0,
          spellingScore = 0, overallScore = 6755399441055745 \<rparr>,
        \<lparr> bloom = None, higherOrder = False, clarityScore = 0, grammarScore = 0,
          spellingScore = 0, overallScore = 0 \<rparr>,
        \<lparr> bloom = None, higherOrder = False, clarityScore = 0, grammarScore = 0,
          spellingScore = 0, overallScore = 0 \<rparr>]) = Num 2251799813685249
   \<and> nearest_half_up (mean overallScore
       [\<lparr> bloom = None, higherOrder = False, clarityScore = 0, grammarScore = 0,
          spellingScore = 0, overallScore = 6755399441055745 \<rparr>,
        \<lparr> bloom = None, higherOrder = False, clarityScore = 0, grammarScore = 0,
          spellingScore = 0, overallScore = 0 \<rparr>,
        \<lparr> bloom = None, higherOrder = False, clarityScore = 0, grammarScore = 0,
          spellingScore = 0, overallScore = 0 \<rparr>]) 2251799813685248"
proof -
  have a: "to_Number 9007199254740992 = Num 9007199254740992"
    by (rule to_Number_exact [where m = 1 and k = 53]) simp_all
  have "exponent 9007199254740993 = 53" by (rule exponent_eqI) simp_all
  then have b: "to_Number 9007199254740993 = Num 9007199254740992"
    by (simp add: to_Number_def round_double_def round_half_even_def)
  have "exponent (6755399441055745 / 3) = 51" by (rule exponent_eqI) simp_all
  then have c: "to_Number (6755399441055745 / 3) = Num (4503599627370497 / 2)"
    by (simp add: to_Number_def round_double_def round_half_even_def)
  show ?thesis
    by (simp add: aggregate_def Let_def forEach_tally_def zero_totals_def tally_def avg_def
        mean_def nearest_half_up_def a b c)
qed

text \<open>
  C6, amended. For a non-empty array of evaluations (fewer than \<open>2^32\<close> of them),
  \<open>totalScore\<close> and the Spelling, Grammar and Clarity metrics are the means of
  \<open>overallScore\<close>, \<open>spellingScore\<close>, \<open>grammarScore\<close> and \<open>clarityScore\<close> rounded to the
  nearest integer, halves up, each for a field whose scores are within double precision:
  their absolute values sum to less than \<open>2^52\<close>. For two evaluations with overall
  scores 80 and 60, both labelled Apply, the first of higher order and the second not,
  the report has \<open>totalScore\<close> 70, Bloom level Apply and Higher Order 50, whatever their
  other scores are.
\<close>

theorem aggregate_averages:
  "(evs \<noteq> [] \<and> length evs < 2 ^ 32 \<longrightarrow>
      (within_double_precision overallScore evs \<longrightarrow>
         (\<exists>r. totalScore (aggregate evs) = Num (of_int r)
              \<and> nearest_half_up (mean overallScore evs) r))
    \<and> (within_double_precision spellingScore evs \<longrightarrow>
         (\<exists>r. metrics (aggregate evs) ! 0 = \<lparr> label = ascii ''Spelling'', score = Number (Num (of_int r)) \<rparr>
              \<and> nearest_half_up (mean spellingScore evs) r))
    \<and> (within_double_precision grammarScore evs \<longrightarrow>
         (\<exists>r. metrics (aggregate evs) ! 1 = \<lparr> label = ascii ''Grammar'', score = Number (Num (of_int r)) \<rparr>
              \<and> nearest_half_up (mean grammarScore evs) r))
    \<and> (within_double_precision clarityScore evs \<longrightarrow>
         (\<exists>r. metrics (aggregate evs) ! 2 = \<lparr> label = ascii ''Clarity'', score = Number (Num (of_int r)) \<rparr>
              \<and> nearest_half_up (mean clarityScore evs) r)))
   \<and> totalScore (aggregate
       [\<lparr> bloom = Some (ascii ''Apply''), higherOrder = True, clarityScore = c1,
          grammarScore = g1, spellingScore = s1, overallScore = 80 \<rparr>,
        \<lparr> bloom = Some (ascii ''Apply''), higherOrder = False, clarityScore = c2,
          grammarScore = g2, spellingScore = s2, overallScore = 60 \<rparr>]) = Num 70
   \<and> metrics (aggregate
       [\<lparr> bloom = Some (ascii ''Apply''), higherOrder = True, clarityScore = c1,
          grammarScore = g1, spellingScore = s1, overallScore = 80 \<rparr>,
        \<lparr> bloom = Some (ascii ''Apply''), higherOrder = False, clarityScore = c2,
          grammarScore = g2, spellingScore = s2, overallScore = 60 \<rparr>]) ! 3
       = \<lparr> label = ascii ''Bloom Level'', score = Text (ascii ''Apply'') \<rparr>
   \<and> metrics (aggregate
       [\<lparr> bloom = Some (ascii ''Apply''), higherOrder = True, clarityScore = c1,
          grammarScore = g1, spellingScore = s1, overallScore = 80 \<rparr>,
        \<lparr> bloom = Some (ascii ''Apply''), higherOrder = False, clarityScore = c2,
          grammarScore = g2, spellingScore = s2, overallScore = 60 \<rparr>]) ! 4
       = \<lparr> label = ascii ''Higher Order'', score = Number (Num 50) \<rparr>"
proof (intro conjI impI)
  assume "evs \<noteq> [] \<and> length evs < 2 ^ 32"
  then have ne: "evs \<noteq> []" and len: "length evs < 2 ^ 32" by simp_all
  {
    assume w: "within_double_precision overallScore evs"
    show "\<exists>r. totalScore (aggregate evs) = Num (of_int r) \<and> nearest_half_up (mean overallScore evs) r"
      using avg_mean [OF ne len w] by (simp add: aggregate_fields forEach_tally_sums w)
  }
  {
    assume w: "within_double_precision spellingScore evs"
    show "\<exists>r. metrics (aggregate evs) ! 0 = \<lparr> label = ascii ''Spelling'', score = Number (Num (of_int r)) \<rparr>
        \<and> nearest_half_up (mean spellingScore evs) r"
      using avg_mean [OF ne len w] by (simp add: aggregate_def Let_def forEach_tally_sums w)
  }
  {
    assume w: "within_double_precision grammarScore evs"
    show "\<exists>r. metrics (aggregate evs) ! 1 = \<lparr> label = ascii ''Grammar'', score = Number (Num (of_int r)) \<rparr>
        \<and> nearest_half_up (mean grammarScore evs) r"
      using avg_mean [OF ne len w] by (simp add: aggregate_def Let_def forEach_tally_sums w)
  }
  {
    assume w: "within_double_precision clarityScore evs"
    show "\<exists>r. metrics (aggregate evs) ! 2 = \<lparr> label = ascii ''Clarity'', score = Number (Num (of_int r)) \<rparr>
        \<and> nearest_half_up (mean clarityScore evs) r"
      using avg_mean [OF ne len w] by (simp add: aggregate_def Let_def forEach_tally_sums w)
  }
next
  define two where "two =
       [\<lparr> bloom = Some (ascii ''Apply''), higherOrder = True, clarityScore = c1,
          grammarScore = g1, spellingScore = s1, overallScore = 80 \<rparr>,
        \<lparr> bloom = Some (ascii ''Apply''), higherOrder = False, clarityScore = c2,
          grammarScore = g2, spellingScore = s2, overallScore = 60 \<rparr>]"
  have "totalScore_acc (forEach_tally two) = Num (of_int 140)"
    by (simp add: two_def forEach_tally_def zero_totals_def tally_def)
  moreover have "avg two (Num (of_int 140)) = Num 70"
  proof -
    have "avg two (Num (of_int 140))
          = Num (of_int \<lfloor>(of_int 140 :: rat) / of_nat (length two) + 1 / 2\<rfloor>)"
      by (rule avg_quotient) (simp_all add: two_def)
    also have "\<lfloor>(of_int 140 :: rat) / of_nat (length two) + 1 / 2\<rfloor>
          = (2 * 140 + int (length two)) div (2 * int (length two))"
      by (rule floor_half_up_int) (simp add: two_def)
    also have "\<dots> = 70" by (simp add: two_def)
    finally show ?thesis by simp
  qed
  ultimately have "totalScore (aggregate two) = Num 70"
    by (simp only: aggregate_fields)
  then show "totalScore (aggregate
       [\<lparr> bloom = Some (ascii ''Apply''), higherOrder = True, clarityScore = c1,
          grammarScore = g1, spellingScore = s1, overallScore = 80 \<rparr>,
        \<lparr> bloom = Some (ascii ''Apply''), higherOrder = False, clarityScore = c2,
          grammarScore = g2, spellingScore = s2, overallScore = 60 \<rparr>]) = Num 70"
    by (simp only: two_def)
next
  show "metrics (aggregate
       [\<lparr> bloom = Some (ascii ''Apply''), higherOrder = True, clarityScore = c1,
          grammarScore = g1, spellingScore = s1, overallScore = 80 \<rparr>,
        \<lparr> bloom = Some (ascii ''Apply''), higherOrder = False, clarityScore = c2,
          grammarScore = g2, spellingScore = s2, overallScore = 60 \<rparr>]) ! 3
       = \<lparr> label = ascii ''Bloom Level'', score = Text (ascii ''Apply'') \<rparr>"
    by (simp add: aggregate_def Let_def forEach_tally_def zero_totals_def tally_def
        mostCommonBloom_def Object_entries_def array_index_Apply, simp add: ascii_def)
next
  show "metrics (aggregate
       [\<lparr> bloom = Some (ascii ''Apply''), higherOrder = True, clarityScore = c1,
          grammarScore = g1, spellingScore = s1, overallScore = 80 \<rparr>,
        \<lparr> bloom = Some (ascii ''Apply''), higherOrder = False, clarityScore = c2,
          grammarScore = g2, spellingScore = s2, overallScore = 60 \<rparr>]) ! 4
       = \<lparr> label = ascii ''Higher Order'', score = Number (Num 50) \<rparr>"
    by (simp add: aggregate_def Let_def forEach_tally_def zero_totals_def tally_def)
qed

theorem aggregate_averages_witness:
  "[\<lparr> bloom = Some (ascii ''Apply''), higherOrder = True, clarityScore = 90,
          grammarScore = 85, spellingScore = 70, overallScore = 81 \<rparr>,
    \<lparr> bloom = None, higherOrder = False, clarityScore = 60,
          grammarScore = 60, spellingScore = 60, overallScore = 60 \<rparr>] \<noteq> []
   \<and> length
       [\<lparr> bloom = Some (ascii ''Apply''), higherOrder = True, clarityScore = 90,
          grammarScore = 85, spellingScore = 70, overallScore = 81 \<rparr>,
        \<lparr> bloom = None, higherOrder = False, clarityScore = 60,
          grammarScore = 60, spellingScore = 60, overallScore = 60 \<rparr>] < 2 ^ 32
   \<and> within_double_precision overallScore
       [\<lparr> bloom = Some (ascii ''Apply''), higherOrder = True, clarityScore = 90,
          grammarScore = 85, spellingScore = 70, overallScore = 81 \<rparr>,
        \<lparr> bloom = None, higherOrder = False, clarityScore = 60,
          grammarScore = 60, spellingScore = 60, overallScore = 60 \<rparr>]
   \<and> totalScore (aggregate
       [\<lparr> bloom = Some (ascii ''Apply''), higherOrder = True, clarityScore = 90,
          grammarScore = 85, spellingScore = 70, overallScore = 81 \<rparr>,
        \<lparr> bloom = None, higherOrder = False, clarityScore = 60,
          grammarScore = 60, spellingScore = 60, overallScore = 60 \<rparr>]) = Num 71"
proof -
  define evs where "evs =
       [\<lparr> bloom = Some (ascii ''Apply''), higherOrder = True, clarityScore = 90,
          grammarScore = 85, spellingScore = 70, overallScore = 81 \<rparr>,
        \<lparr> bloom = None, higherOrder = False, clarityScore = 60,
          grammarScore = 60, spellingScore = 60, overallScore = 60 \<rparr>]"
  have ne: "evs \<noteq> [] \<and> length evs < 2 ^ 32" by (simp add: evs_def)
  have w: "within_double_precision overallScore evs"
    by (simp add: evs_def within_double_precision_def)
  have mean: "mean overallScore evs = 141 / 2" by (simp add: mean_def evs_def)
  from aggregate_averages [of evs] ne w obtain r where
    t: "totalScore (aggregate evs) = Num (of_int r)" and
    r: "nearest_half_up (mean overallScore evs) r" by blast
  from r have "rat_of_int r \<le> 71" "70 < rat_of_int r"
    unfolding mean nearest_half_up_def by simp_all
  then have "r \<le> 71" "70 < r" by simp_all
  then have "r = 71" by simp
  with t ne w show ?thesis unfolding evs_def by simp
qed

subsection \<open>The dominant Bloom level\<close>

lemma foldl_tally_bloomCounts:
  "bloomCounts (foldl tally t evs)
   = foldl (\<lambda>kvs l. increment l kvs) (bloomCounts t) (bloom_labels evs)"
proof (induction evs arbitrary: t)
  case Nil
  then show ?case by (simp add: bloom_labels_def)
next
  case (Cons q evs)
  have "bloom_labels (q # evs) 
        = (case bloom q of Some l \<Rightarrow> if l \<noteq> [] then [l] else [] | None \<Rightarrow> []) @ bloom_labels evs"
    by (simp add: bloom_labels_def)
  moreover have "bloomCounts (tally t q) 
        = foldl (\<lambda>kvs l. increment l kvs) (bloomCounts t) 
            (case bloom q of Some l \<Rightarrow> if l \<noteq> [] then [l] else [] | None \<Rightarrow> [])"
    by (simp add: tally_def split: option.splits)
  ultimately show ?case using Cons.IH [of "tally t q"] by simp
qed

lemma forEach_tally_bloomCounts:
  "bloomCounts (forEach_tally evs) = count_labels (bloom_labels evs)"
  by (simp add: forEach_tally_def count_labels_def foldl_tally_bloomCounts zero_totals_def)

lemma set_first_seen [simp]: "set (first_seen xs) = set xs"
  by (induction xs) auto

lemma distinct_first_seen [simp]: "distinct (first_seen xs)"
  by (induction xs) auto

lemma first_seen_snoc:
  "first_seen (xs @ [x]) = (if x \<in> set xs then first_seen xs else first_seen xs @ [x])"
  by (induction xs) auto

lemma increment_map:
  assumes "distinct ks"
  shows "increment l (map (\<lambda>k. (k, f k)) ks)
         = (if l \<in> set ks then map (\<lambda>k. (k, if k = l then f k + 1 else f k)) ks
            else map (\<lambda>k. (k, f k)) ks @ [(l, 1)])"
  using assms by (induction ks) auto

lemma count_labels_first_seen:
  "count_labels ls = map (\<lambda>k. (k, count_list ls k)) (first_seen ls)"
proof (induction ls rule: rev_induct)
  case Nil
  then show ?case by (simp add: count_labels_def)
next
  case (snoc l ls)
  have "count_labels (ls @ [l]) = increment l (count_labels ls)"
    by (simp add: count_labels_def)
  also have "\<dots> = increment l (map (\<lambda>k. (k, count_list ls k)) (first_seen ls))"
    by (simp only: snoc.IH)
  also have "\<dots> = map (\<lambda>k. (k, count_list (ls @ [l]) k)) (first_seen (ls @ [l]))"
    by (auto simp: increment_map first_seen_snoc count_list_0_iff)
  finally show ?case .
qed

lemma insort_key_map:
  "insort_key f (g x) (map g ys) = map g (insort_key (\<lambda>y. f (g y)) x ys)"
  by (induction ys) auto

lemma sort_key_map: "sort_key f (map g xs) = map g (sort_key (\<lambda>y. f (g y)) xs)"
  by (induction xs) (simp_all add: insort_key_map)

lemma Object_entries_map:
  "Object_entries (map (\<lambda>k. (k, c k)) ks)
   = map (\<lambda>k. (k, c k))
       (sort_key (\<lambda>k. the (array_index k)) (filter (\<lambda>k. array_index k \<noteq> None) ks)
        @ filter (\<lambda>k. array_index k = None) ks)"
  by (simp add: Object_entries_def filter_map sort_key_map comp_def)

lemma Object_entries_count_labels:
  "Object_entries (count_labels ls) = map (\<lambda>k. (k, count_list ls k)) (key_order ls)"
  by (simp only: count_labels_first_seen Object_entries_map key_order_def)

lemma hd_sort_key:
  assumes "xs \<noteq> []"
  shows "hd (sort_key f xs) \<in> set xs"
    and "\<forall>z\<in>set xs. f (hd (sort_key f xs)) \<le> f z"
    and "hd (sort_key f xs) = hd (filter (\<lambda>z. f z = f (hd (sort_key f xs))) xs)"
proof -
  let ?ys = "sort_key f xs"
  have ne: "?ys \<noteq> []" using assms by (metis length_sort length_0_conv)
  then obtain y ys where ys: "?ys = y # ys" by (cases ?ys) auto
  have "y \<in> set ?ys" by (simp add: ys)
  then have "y \<in> set xs" by (simp only: set_sort)
  then show "hd ?ys \<in> set xs" by (simp add: ys)
  have "sorted (map f ?ys)" by (rule sorted_sort_key)
  then have "\<forall>z\<in>set ?ys. f y \<le> f z" by (auto simp: ys)
  then have "\<forall>z\<in>set xs. f y \<le> f z" by (simp only: set_sort)
  then show "\<forall>z\<in>set xs. f (hd ?ys) \<le> f z" by (simp add: ys)
  have "filter (\<lambda>z. f z = f y) ?ys = filter (\<lambda>z. f z = f y) xs"
    by (rule sort_key_stable)
  then have "filter (\<lambda>z. f z = f y) xs = y # filter (\<lambda>z. f z = f y) ys"
    by (simp add: ys)
  then have "hd (filter (\<lambda>z. f z = f y) xs) = y" by simp
  then show "hd ?ys = hd (filter (\<lambda>z. f z = f (hd ?ys)) xs)" by (simp add: ys)
qed

lemma set_key_order [simp]: "set (key_order ls) = set ls"
  by (auto simp: key_order_def)

lemma key_order_plain:
  "\<forall>l\<in>set ls. array_index l = None \<Longrightarrow> key_order ls = first_seen ls"
  by (simp add: key_order_def)

lemma sort_key_Nil_iff: "sort_key f xs = [] \<longleftrightarrow> xs = []"
  by (metis length_sort length_0_conv)

lemma mostCommonBloom_hd:
  assumes "Object_entries props \<noteq> []"
    and "fst (hd (sort_key (\<lambda>(k, n). - int n) (Object_entries props))) \<noteq> []"
  shows "mostCommonBloom props = fst (hd (sort_key (\<lambda>(k, n). - int n) (Object_entries props)))"
proof -
  obtain k n rest where "sort_key (\<lambda>(k, n). - int n) (Object_entries props) = (k, n) # rest"
    using assms(1) by (cases "sort_key (\<lambda>(k, n). - int n) (Object_entries props)")
      (auto simp: sort_key_Nil_iff)
  then show ?thesis using assms(2) by (simp add: mostCommonBloom_def)
qed

lemma mostCommonBloom_count_labels:
  assumes "ls \<noteq> []" and "[] \<notin> set ls"
  defines "d \<equiv> mostCommonBloom (count_labels ls)"
  shows "d \<in> set ls"
    and "\<forall>l\<in>set ls. count_list ls l \<le> count_list ls d"
    and "d = hd (filter (\<lambda>l. count_list ls l = count_list ls d) (key_order ls))"
proof -
  define E where "E = map (\<lambda>k. (k, count_list ls k)) (key_order ls)"
  define f :: "jsstring \<times> nat \<Rightarrow> int" where "f = (\<lambda>(k, n). - int n)"
  define h where "h = hd (sort_key f E)"
  have OE: "Object_entries (count_labels ls) = E"
    by (simp add: E_def Object_entries_count_labels)
  have "key_order ls \<noteq> []" using assms(1) by (metis set_key_order set_empty)
  then have Ene: "E \<noteq> []" by (simp add: E_def)
  have mem: "h \<in> set E" unfolding h_def by (rule hd_sort_key(1) [OF Ene])
  then obtain k where k: "k \<in> set ls" "h = (k, count_list ls k)"
    by (auto simp: E_def)
  have "k \<noteq> []" using k(1) assms(2) by auto
  then have "fst (hd (sort_key (\<lambda>(k, n). - int n) (Object_entries (count_labels ls)))) \<noteq> []"
    using k(2) by (simp add: OE h_def f_def)
  then have "d = fst h"
    unfolding d_def h_def f_def using mostCommonBloom_hd [of "count_labels ls"] Ene
    by (simp add: OE)
  then have d: "d = k" by (simp add: k(2))
  show "d \<in> set ls" using d k(1) by simp
  have "\<forall>z\<in>set E. f h \<le> f z" unfolding h_def by (rule hd_sort_key(2) [OF Ene])
  then have "\<forall>l\<in>set ls. f (k, count_list ls k) \<le> f (l, count_list ls l)"
    by (simp add: E_def k(2))
  then show "\<forall>l\<in>set ls. count_list ls l \<le> count_list ls d"
    by (simp add: f_def d)
  have "h = hd (filter (\<lambda>z. f z = f h) E)" unfolding h_def by (rule hd_sort_key(3) [OF Ene])
  moreover have "filter (\<lambda>z. f z = f h) E
      = map (\<lambda>k. (k, count_list ls k)) (filter (\<lambda>l. count_list ls l = count_list ls k) (key_order ls))"
    by (simp add: E_def k(2) f_def filter_map comp_def)
  moreover have "filter (\<lambda>l. count_list ls l = count_list ls k) (key_order ls) \<noteq> []"
    using k(1) by (auto simp: filter_empty_conv)
  ultimately have "h = (\<lambda>k. (k, count_list ls k)) (hd (filter (\<lambda>l. count_list ls l = count_list ls k) (key_order ls)))"
    by (simp add: hd_map)
  then show "d = hd (filter (\<lambda>l. count_list ls l = count_list ls d) (key_order ls))"
    by (simp add: d k(2))
qed

lemma mostCommonBloom_none: "mostCommonBloom (count_labels []) = ascii ''N/A''"
  by (simp add: count_labels_def mostCommonBloom_def Object_entries_def)

lemma decimal_small: "n < 10 \<Longrightarrow> decimal n = [of_nat (48 + n)]"
  by (simp add: decimal.simps)

lemma array_index_1: "array_index (ascii ''1'') = Some 1"
  by (simp add: array_index_def ascii_def digits_value_def decimal_small)

lemma array_index_Analyze: "array_index (ascii ''Analyze'') = None"
  by (simp add: array_index_def ascii_def)

text \<open>
  C5, as the claim states it, fails: a tie is not always decided for the label met first.
  \<open>Object.entries\<close> lists keys that are array indices before all other keys, so with the
  labels Apply and then 1, once each, the reported label is 1.
\<close>

theorem bloom_tie_prefers_array_index:
  "bloom_labels
     [\<lparr> bloom = Some (ascii ''Apply''), higherOrder = False, clarityScore = 50,
        grammarScore = 50, spellingScore = 50, overallScore = 50 \<rparr>,
      \<lparr> bloom = Some (ascii ''1''), higherOrder = False, clarityScore = 50,
        grammarScore = 50, spellingScore = 50, overallScore = 50 \<rparr>]
     = [ascii ''Apply'', ascii ''1'']
   \<and> metrics (aggregate
     [\<lparr> bloom = Some (ascii ''Apply''), higherOrder = False, clarityScore = 50,
        grammarScore = 50, spellingScore = 50, overallScore = 50 \<rparr>,
      \<lparr> bloom = Some (ascii ''1''), higherOrder = False, clarityScore = 50,
        grammarScore = 50, spellingScore = 50, overallScore = 50 \<rparr>]) ! 3
     = \<lparr> label = ascii ''Bloom Level'', score = Text (ascii ''1'') \<rparr>"
  by (simp add: bloom_labels_def aggregate_def Let_def forEach_tally_def zero_totals_def
      tally_def mostCommonBloom_def Object_entries_def array_index_Apply array_index_1)
     (simp add: ascii_def)

text \<open>
  C5, amended. For every evaluation sequence whose labels are not names of properties of
  \<open>Object.prototype\<close>: evaluations with a missing or empty \<open>bloom\<close> are not counted; when
  no label is left the Bloom level is \<open>N/A\<close>; otherwise it is a label with the highest
  count, and among the labels with that count the first one in the key order of the
  counting object, which lists the labels that are array indices in ascending numeric
  order and then the other labels as first met. When no label is an array index, that is
  the order in which the labels are first met.
\<close>

theorem dominant_bloom:
  "set (bloom_labels evs) \<inter> set object_prototype_keys = {} \<Longrightarrow>
   \<exists>d. metrics (aggregate evs) ! 3 = \<lparr> label = ascii ''Bloom Level'', score = Text d \<rparr>
     \<and> (bloom_labels evs = [] \<longrightarrow> d = ascii ''N/A'')
     \<and> (bloom_labels evs \<noteq> [] \<longrightarrow>
          d \<in> set (bloom_labels evs)
          \<and> (\<forall>l\<in>set (bloom_labels evs).
                count_list (bloom_labels evs) l \<le> count_list (bloom_labels evs) d)
          \<and> d = hd (filter (\<lambda>l. count_list (bloom_labels evs) l = count_list (bloom_labels evs) d)
                     (key_order (bloom_labels evs))))
     \<and> ((\<forall>l\<in>set (bloom_labels evs). array_index l = None) \<longrightarrow>
          key_order (bloom_labels evs) = first_seen (bloom_labels evs))"
proof -
  define ls where "ls = bloom_labels evs"
  define d where "d = mostCommonBloom (count_labels ls)"
  have m: "metrics (aggregate evs) ! 3 = \<lparr> label = ascii ''Bloom Level'', score = Text d \<rparr>"
    by (simp add: aggregate_def Let_def forEach_tally_bloomCounts d_def ls_def)
  have nonempty: "[] \<notin> set ls"
    by (auto simp: ls_def bloom_labels_def split: option.splits if_splits)
  have a: "ls = [] \<longrightarrow> d = ascii ''N/A''"
    by (simp add: d_def mostCommonBloom_none)
  have b: "ls \<noteq> [] \<longrightarrow> d \<in> set ls \<and> (\<forall>l\<in>set ls. count_list ls l \<le> count_list ls d)
      \<and> d = hd (filter (\<lambda>l. count_list ls l = count_list ls d) (key_order ls))"
    using mostCommonBloom_count_labels [OF _ nonempty] unfolding d_def by blast
  have c: "(\<forall>l\<in>set ls. array_index l = None) \<longrightarrow> key_order ls = first_seen ls"
    using key_order_plain by blast
  from m a b c show ?thesis unfolding ls_def by blast
qed

theorem dominant_bloom_witness:
  "set (bloom_labels
     [\<lparr> bloom = Some (ascii ''Apply''), higherOrder = True, clarityScore = 90,
        grammarScore = 80, spellingScore = 70, overallScore = 80 \<rparr>,
      \<lparr> bloom = Some (ascii ''Analyze''), higherOrder = True, clarityScore = 60,
        grammarScore = 60, spellingScore = 60, overallScore = 60 \<rparr>,
      \<lparr> bloom = None, higherOrder = False, clarityScore = 60,
        grammarScore = 60, spellingScore = 60, overallScore = 60 \<rparr>,
      \<lparr> bloom = Some (ascii ''Analyze''), higherOrder = True, clarityScore = 60,
        grammarScore = 60, spellingScore = 60, overallScore = 60 \<rparr>,
      \<lparr> bloom = Some (ascii ''Apply''), higherOrder = False, clarityScore = 40,
        grammarScore = 40, spellingScore = 40, overallScore = 40 \<rparr>]) \<inter> set object_prototype_keys = {}
   \<and> metrics (aggregate
     [\<lparr> bloom = Some (ascii ''Apply''), higherOrder = True, clarityScore = 90,
        grammarScore = 80, spellingScore = 70, overallScore = 80 \<rparr>,
      \<lparr> bloom = Some (ascii ''Analyze''), higherOrder = True, clarityScore = 60,
        grammarScore = 60, spellingScore = 60, overallScore = 60 \<rparr>,
      \<lparr> bloom = None, higherOrder = False, clarityScore = 60,
        grammarScore = 60, spellingScore = 60, overallScore = 60 \<rparr>,
      \<lparr> bloom = Some (ascii ''Analyze''), higherOrder = True, clarityScore = 60,
        grammarScore = 60, spellingScore = 60, overallScore = 60 \<rparr>,
      \<lparr> bloom = Some (ascii ''Apply''), higherOrder = False, clarityScore = 40,
        grammarScore = 40, spellingScore = 40, overallScore = 40 \<rparr>]) ! 3
     = \<lparr> label = ascii ''Bloom Level'', score = Text (ascii ''Apply'') \<rparr>
   \<and> metrics (aggregate
     [\<lparr> bloom = None, higherOrder = True, clarityScore = 90,
        grammarScore = 80, spellingScore = 70, overallScore = 80 \<rparr>,
      \<lparr> bloom = Some [], higherOrder = False, clarityScore = 60,
        grammarScore = 60, spellingScore = 60, overallScore = 60 \<rparr>]) ! 3
     = \<lparr> label = ascii ''Bloom Level'', score = Text (ascii ''N/A'') \<rparr>"
proof -
  define evs where "evs =
     [\<lparr> bloom = Some (ascii ''Apply''), higherOrder = True, clarityScore = 90,
        grammarScore = 80, spellingScore = 70, overallScore = 80 \<rparr>,
      \<lparr> bloom = Some (ascii ''Analyze''), higherOrder = True, clarityScore = 60,
        grammarScore = 60, spellingScore = 60, overallScore = 60 \<rparr>,
      \<lparr> bloom = None, higherOrder = False, clarityScore = 60,
        grammarScore = 60, spellingScore = 60, overallScore = 60 \<rparr>,
      \<lparr> bloom = Some (ascii ''Analyze''), higherOrder = True, clarityScore = 60,
        grammarScore = 60, spellingScore = 60, overallScore = 60 \<rparr>,
      \<lparr> bloom = Some (ascii ''Apply''), higherOrder = False, clarityScore = 40,
        grammarScore = 40, spellingScore = 40, overallScore = 40 \<rparr>]"
  have ls: "bloom_labels evs = [ascii ''Apply'', ascii ''Analyze'', ascii ''Analyze'', ascii ''Apply'']"
    by (simp add: evs_def bloom_labels_def ascii_def)
  have ne: "ascii ''Analyze'' \<noteq> ascii ''Apply''" by (simp add: ascii_def)
  have plain: "set (bloom_labels evs) \<inter> set object_prototype_keys = {}"
    unfolding ls by (simp add: object_prototype_keys_def ascii_def)
  from dominant_bloom [OF plain] obtain d where
    m: "metrics (aggregate evs) ! 3 = \<lparr> label = ascii ''Bloom Level'', score = Text d \<rparr>"
    and d: "d = hd (filter (\<lambda>l. count_list (bloom_labels evs) l = count_list (bloom_labels evs) d)
                     (key_order (bloom_labels evs)))"
    and mem: "d \<in> set (bloom_labels evs)"
    and k: "key_order (bloom_labels evs) = first_seen (bloom_labels evs)"
    unfolding ls using array_index_Apply array_index_Analyze by auto
  from mem have "count_list (bloom_labels evs) d = 2" unfolding ls using ne by auto
  with d have "d = ascii ''Apply''" unfolding k unfolding ls using ne by simp
  with m plain have first: "set (bloom_labels evs) \<inter> set object_prototype_keys = {}
      \<and> metrics (aggregate evs) ! 3
          = \<lparr> label = ascii ''Bloom Level'', score = Text (ascii ''Apply'') \<rparr>"
    by simp
  define evs' where "evs' =
     [\<lparr> bloom = None, higherOrder = True, clarityScore = 90,
        grammarScore = 80, spellingScore = 70, overallScore = 80 \<rparr>,
      \<lparr> bloom = Some [], higherOrder = False, clarityScore = 60,
        grammarScore = 60, spellingScore = 60, overallScore = 60 \<rparr>]"
  have none: "bloom_labels evs' = []" by (simp add: evs'_def bloom_labels_def)
  then have "set (bloom_labels evs') \<inter> set object_prototype_keys = {}" by simp
  from dominant_bloom [OF this] none
  have "metrics (aggregate evs') ! 3
      = \<lparr> label = ascii ''Bloom Level'', score = Text (ascii ''N/A'') \<rparr>"
    by auto
  with first show ?thesis unfolding evs_def evs'_def by simp
qed

subsection \<open>Evaluator answers and the parser stage\<close>

lemma POST_submission:
  "POST create (Some (submission outcomes syllabus set1)) =
     (case create (completion_request set1) of
        Throws \<Rightarrow> (Error_response (ascii ''Evaluation failed.'') 500, [completion_request set1])
      | Returns completion' \<Rightarrow>
          (case answer completion' of
             Throws \<Rightarrow> (Error_response (ascii ''Evaluation failed.'') 500, [completion_request set1])
           | Returns reply \<Rightarrow> (reply, [completion_request set1])))"
  by (simp add: POST_def submission_def get_prop_def ascii_def)

lemma extract_array_empty_array: "extract_array (ascii ''[]'') = ascii ''[]''"
  by (simp add: extract_array_def strip_fences_def trim_def is_space_def ascii_def
      fence_at_def fence_json_at_def)

lemma JSON_parse_empty_array: "JSON_parse (ascii ''[]'') = Some (JArr [])"
  by (simp add: JSON_parse_def ascii_def begin_value_def)

lemma summarize_empty: "summarize (JArr []) = Returns (Report_response (aggregate []))"
  by (simp add: summarize_def)

lemma answer_no_message:
  "answer None = Returns (Error_response (ascii ''No response from AI.'') 500)"
  "answer (Some \<lparr> choices = None \<rparr>) = Returns (Error_response (ascii ''No response from AI.'') 500)"
  "answer (Some \<lparr> choices = Some (\<lparr> message = None \<rparr> # others) \<rparr>)
     = Returns (Error_response (ascii ''No response from AI.'') 500)"
  by (simp_all add: answer_def)

lemma answer_message:
  "answer (Some \<lparr> choices = Some (\<lparr> message = Some m \<rparr> # others) \<rparr>) =
     (case parse_evaluations (extract_array
             (case content m of None \<Rightarrow> ascii ''[]''
              | Some text \<Rightarrow> if text \<noteq> [] then text else ascii ''[]'')) of
        Inl failure \<Rightarrow> Returns failure
      | Inr evaluations' \<Rightarrow> summarize evaluations')"
  by (simp add: answer_def)

lemma answer_default:
  assumes "content m = None \<or> content m = Some []"
  shows "answer (Some \<lparr> choices = Some (\<lparr> message = Some m \<rparr> # others) \<rparr>)
         = Returns (Report_response (aggregate []))"
proof -
  from assms have "(case content m of None \<Rightarrow> ascii ''[]''
              | Some text \<Rightarrow> if text \<noteq> [] then text else ascii ''[]'') = ascii ''[]''"
    by auto
  then show ?thesis
    by (simp only: answer_message)
       (simp add: parse_evaluations_def extract_array_empty_array JSON_parse_empty_array
          summarize_empty)
qed

lemma summarize_not_array: "\<forall>qs. v \<noteq> JArr qs \<Longrightarrow> summarize v = Throws"
  by (cases v) (simp_all add: summarize_def)

text \<open>
  C2, as the claim states it, fails: when the message is there but its content is missing
  or empty, line 71 takes \<open>"[]"\<close> in its place, which parses to the empty array, and
  the caller gets a report.
\<close>

theorem POST_without_content_reports:
  "fst (POST (\<lambda>request. Returns (Some \<lparr> choices = Some [\<lparr> message = Some \<lparr> content = None \<rparr> \<rparr>] \<rparr>))
          (Some (submission (ascii ''CO1'') (ascii ''Unit 1'') (ascii ''What is 2+2?''))))
     = Report_response (aggregate [])
   \<and> fst (POST (\<lambda>request. Returns (Some \<lparr> choices = Some [\<lparr> message = Some \<lparr> content = Some [] \<rparr> \<rparr>] \<rparr>))
          (Some (submission (ascii ''CO1'') (ascii ''Unit 1'') (ascii ''What is 2+2?''))))
     = Report_response (aggregate [])"
  by (simp add: POST_submission answer_default)

text \<open>
  C2, amended. On a well-formed submission, when the Evaluator returns no completion, a
  completion without choices, or a first choice without a message, the response is
  \<open>No response from AI.\<close> with status 500. When the first choice has a message whose
  content is missing or empty, \<open>"[]"\<close> is taken as the content and the response is the
  report of the empty evaluation sequence.
\<close>

theorem POST_without_message_or_content:
  "create (completion_request set1) = Returns completion' \<Longrightarrow>
     ((completion' = None \<or> completion' = Some \<lparr> choices = None \<rparr>
        \<or> (\<exists>others. completion' = Some \<lparr> choices = Some (\<lparr> message = None \<rparr> # others) \<rparr>)) \<longrightarrow>
      POST create (Some (submission outcomes syllabus set1))
        = (Error_response (ascii ''No response from AI.'') 500, [completion_request set1]))
   \<and> ((\<exists>m others. completion' = Some \<lparr> choices = Some (\<lparr> message = Some m \<rparr> # others) \<rparr>
          \<and> (content m = None \<or> content m = Some [])) \<longrightarrow>
      POST create (Some (submission outcomes syllabus set1))
        = (Report_response (aggregate []), [completion_request set1]))"
  by (auto simp: POST_submission answer_no_message answer_default)

theorem POST_without_message_or_content_witness:
  "POST (\<lambda>request. Returns None)
     (Some (submission (ascii ''CO1'') (ascii ''Unit 1'') (ascii ''What is 2+2?'')))
   = (Error_response (ascii ''No response from AI.'') 500,
      [completion_request (ascii ''What is 2+2?'')])
   \<and> POST (\<lambda>request. Returns (Some \<lparr> choices = Some [\<lparr> message = Some \<lparr> content = Some [] \<rparr> \<rparr>] \<rparr>))
     (Some (submission (ascii ''CO1'') (ascii ''Unit 1'') (ascii ''What is 2+2?'')))
   = (Report_response (aggregate []), [completion_request (ascii ''What is 2+2?'')])"
proof -
  have "(\<lambda>request. Returns None) (completion_request (ascii ''What is 2+2?''))
      = (Returns None :: completion option outcome)"
    by simp
  from POST_without_message_or_content [OF this, of "ascii ''CO1''" "ascii ''Unit 1''"]
  have a: "POST (\<lambda>request. Returns None)
     (Some (submission (ascii ''CO1'') (ascii ''Unit 1'') (ascii ''What is 2+2?'')))
   = (Error_response (ascii ''No response from AI.'') 500,
      [completion_request (ascii ''What is 2+2?'')])"
    by simp
  have "(\<lambda>request. Returns (Some \<lparr> choices = Some [\<lparr> message = Some \<lparr> content = Some [] \<rparr> \<rparr>] \<rparr>))
        (completion_request (ascii ''What is 2+2?''))
      = Returns (Some \<lparr> choices = Some [\<lparr> message = Some \<lparr> content = Some [] \<rparr> \<rparr>] \<rparr>)"
    by simp
  from POST_without_message_or_content [OF this, of "ascii ''CO1''" "ascii ''Unit 1''"]
  have "POST (\<lambda>request. Returns (Some \<lparr> choices = Some [\<lparr> message = Some \<lparr> content = Some [] \<rparr> \<rparr>] \<rparr>))
     (Some (submission (ascii ''CO1'') (ascii ''Unit 1'') (ascii ''What is 2+2?'')))
   = (Report_response (aggregate []), [completion_request (ascii ''What is 2+2?'')])"
    by simp
  with a show ?thesis by simp
qed

lemma extract_array_42: "extract_array (ascii ''42'') = ascii ''42''"
  by (simp add: extract_array_def strip_fences_def trim_def is_space_def ascii_def
      fence_at_def fence_json_at_def)

lemma JSON_parse_42: "JSON_parse (ascii ''42'') = Some (JNum 42)"
  by (simp add: JSON_parse_def ascii_def begin_value_def is_digit_def lex_number_def
      lex_fraction_def lex_exponent_def digits_value_def)

text \<open>
  C3, as the claim states it, fails for a candidate that is valid JSON but not an array:
  \<open>42\<close> passes the parser stage; the fault comes later, in \<open>evaluations.forEach\<close>, and
  the outer \<open>catch\<close> answers \<open>Evaluation failed.\<close>, not the parse failure.
\<close>

theorem parse_stage_accepts_non_array:
  "parse_evaluations (extract_array (ascii ''42'')) = Inr (JNum 42)
   \<and> fst (POST (\<lambda>request. Returns (Some \<lparr> choices = Some [\<lparr> message = Some \<lparr> content = Some (ascii ''42'') \<rparr> \<rparr>] \<rparr>))
          (Some (submission (ascii ''CO1'') (ascii ''Unit 1'') (ascii ''What is 2+2?''))))
     = Error_response (ascii ''Evaluation failed.'') 500"
proof -
  have p: "parse_evaluations (extract_array (ascii ''42'')) = Inr (JNum 42)"
    by (simp add: parse_evaluations_def extract_array_42 JSON_parse_42)
  have "ascii ''42'' \<noteq> []" by (simp add: ascii_def)
  then have "answer (Some \<lparr> choices = Some [\<lparr> message = Some \<lparr> content = Some (ascii ''42'') \<rparr> \<rparr>] \<rparr>)
      = Throws"
    by (simp add: answer_message p summarize_def)
  with p show ?thesis by (simp add: POST_submission)
qed

text \<open>
  C3, amended. For every candidate on which \<open>JSON.parse\<close> throws, the parser stage
  yields the response \<open>AI response could not be parsed.\<close> with status 500, and that is
  the response of the handler. A candidate that parses to a value that is not an array
  passes the parser stage; the handler then answers \<open>Evaluation failed.\<close> with status
  500. In both cases the handler returns a response: no fault gets past it.
\<close>

theorem parse_failure_responses:
  "create (completion_request set1)
     = Returns (Some \<lparr> choices = Some (\<lparr> message = Some \<lparr> content = Some text \<rparr> \<rparr> # others) \<rparr>) \<Longrightarrow>
   text \<noteq> [] \<Longrightarrow>
     (JSON_parse (extract_array text) = None \<longrightarrow>
        parse_evaluations (extract_array text)
          = Inl (Error_response (ascii ''AI response could not be parsed.'') 500)
        \<and> POST create (Some (submission outcomes syllabus set1))
          = (Error_response (ascii ''AI response could not be parsed.'') 500,
             [completion_request set1]))
   \<and> (\<forall>v. JSON_parse (extract_array text) = Some v \<and> (\<forall>qs. v \<noteq> JArr qs) \<longrightarrow>
        parse_evaluations (extract_array text) = Inr v
        \<and> POST create (Some (submission outcomes syllabus set1))
          = (Error_response (ascii ''Evaluation failed.'') 500, [completion_request set1]))"
proof (intro conjI allI impI)
  assume c: "create (completion_request set1)
     = Returns (Some \<lparr> choices = Some (\<lparr> message = Some \<lparr> content = Some text \<rparr> \<rparr> # others) \<rparr>)"
    and t: "text \<noteq> []"
  {
    assume n: "JSON_parse (extract_array text) = None"
    then show p: "parse_evaluations (extract_array text)
          = Inl (Error_response (ascii ''AI response could not be parsed.'') 500)"
      by (simp add: parse_evaluations_def)
    show "POST create (Some (submission outcomes syllabus set1))
          = (Error_response (ascii ''AI response could not be parsed.'') 500,
             [completion_request set1])"
      using c t p by (simp add: POST_submission answer_message)
  }
  {
    fix v assume v: "JSON_parse (extract_array text) = Some v \<and> (\<forall>qs. v \<noteq> JArr qs)"
    then show p: "parse_evaluations (extract_array text) = Inr v"
      by (simp add: parse_evaluations_def)
    from v have "summarize v = Throws" by (simp add: summarize_not_array)
    then show "POST create (Some (submission outcomes syllabus set1))
          = (Error_response (ascii ''Evaluation failed.'') 500, [completion_request set1])"
      using c t p by (simp add: POST_submission answer_message)
  }
qed

lemma extract_array_bad_json: "extract_array (ascii ''[{bad json'') = ascii ''[{bad json''"
  by (simp add: extract_array_def strip_fences_def trim_def is_space_def ascii_def
      fence_at_def fence_json_at_def)

lemma JSON_parse_bad_json: "JSON_parse (ascii ''[{bad json'') = None"
  by (simp add: JSON_parse_def ascii_def is_digit_def)

theorem parse_failure_responses_witness:
  "JSON_parse (extract_array (ascii ''[{bad json'')) = None
   \<and> POST (\<lambda>request. Returns (Some \<lparr> choices = Some [\<lparr> message = Some \<lparr> content = Some (ascii ''[{bad json'') \<rparr> \<rparr>] \<rparr>))
        (Some (submission (ascii ''CO1'') (ascii ''Unit 1'') (ascii ''What is 2+2?'')))
     = (Error_response (ascii ''AI response could not be parsed.'') 500,
        [completion_request (ascii ''What is 2+2?'')])
   \<and> JSON_parse (extract_array (ascii ''42'')) = Some (JNum 42)
   \<and> POST (\<lambda>request. Returns (Some \<lparr> choices = Some [\<lparr> message = Some \<lparr> content = Some (ascii ''42'') \<rparr> \<rparr>] \<rparr>))
        (Some (submission (ascii ''CO1'') (ascii ''Unit 1'') (ascii ''What is 2+2?'')))
     = (Error_response (ascii ''Evaluation failed.'') 500,
        [completion_request (ascii ''What is 2+2?'')])"
proof -
  have n: "JSON_parse (extract_array (ascii ''[{bad json'')) = None"
    by (simp add: extract_array_bad_json JSON_parse_bad_json)
  have c: "(\<lambda>request. Returns (Some \<lparr> choices = Some [\<lparr> message = Some \<lparr> content = Some (ascii ''[{bad json'') \<rparr> \<rparr>] \<rparr>))
        (completion_request (ascii ''What is 2+2?''))
      = Returns (Some \<lparr> choices = Some (\<lparr> message = Some \<lparr> content = Some (ascii ''[{bad json'') \<rparr> \<rparr> # []) \<rparr>)"
    by simp
  have t: "ascii ''[{bad json'' \<noteq> []" by (simp add: ascii_def)
  from parse_failure_responses [OF c t, of "ascii ''CO1''" "ascii ''Unit 1''"] n
  have bad: "POST (\<lambda>request. Returns (Some \<lparr> choices = Some [\<lparr> message = Some \<lparr> content = Some (ascii ''[{bad json'') \<rparr> \<rparr>] \<rparr>))
        (Some (submission (ascii ''CO1'') (ascii ''Unit 1'') (ascii ''What is 2+2?'')))
     = (Error_response (ascii ''AI response could not be parsed.'') 500,
        [completion_request (ascii ''What is 2+2?'')])"
    by simp
  have v: "JSON_parse (extract_array (ascii ''42'')) = Some (JNum 42)"
    by (simp add: extract_array_42 JSON_parse_42)
  have c': "(\<lambda>request. Returns (Some \<lparr> choices = Some [\<lparr> message = Some \<lparr> content = Some (ascii ''42'') \<rparr> \<rparr>] \<rparr>))
        (completion_request (ascii ''What is 2+2?''))
      = Returns (Some \<lparr> choices = Some (\<lparr> message = Some \<lparr> content = Some (ascii ''42'') \<rparr> \<rparr> # []) \<rparr>)"
    by simp
  have t': "ascii ''42'' \<noteq> []" by (simp add: ascii_def)
  from parse_failure_responses [OF c' t', of "ascii ''CO1''" "ascii ''Unit 1''"] v
  have "POST (\<lambda>request. Returns (Some \<lparr> choices = Some [\<lparr> message = Some \<lparr> content = Some (ascii ''42'') \<rparr> \<rparr>] \<rparr>))
        (Some (submission (ascii ''CO1'') (ascii ''Unit 1'') (ascii ''What is 2+2?'')))
     = (Error_response (ascii ''Evaluation failed.'') 500,
        [completion_request (ascii ''What is 2+2?'')])"
    by simp
  with n bad v show ?thesis by simp
qed

subsection \<open>Input validation\<close>

text \<open>
  For every body other than \<open>null\<close> in which one of the three fields is missing or not a
  string, the response is \<open>Invalid input data.\<close> with status 400 and no request is sent
  to the Evaluator.
\<close>

lemma fields_case_invalid:
  "\<not> (textual x \<and> textual y \<and> textual z) \<Longrightarrow>
     (case (x, y, z) of
        (Some (JStr a), Some (JStr b), Some (JStr c)) \<Rightarrow> f a b c
      | _ \<Rightarrow> d) = d"
  by (simp add: textual_def split: option.splits json.splits)

lemma POST_not_null:
  "b \<noteq> JNull \<Longrightarrow>
   POST create (Some b) =
     (case (get_prop b ''outcomes'', get_prop b ''syllabus'', get_prop b ''set1'') of
             (Some (JStr outcomes), Some (JStr syllabus), Some (JStr set1)) \<Rightarrow>
               (case create (completion_request set1) of
                  Throws \<Rightarrow>
                    (Error_response (ascii ''Evaluation failed.'') 500, [completion_request set1])
                | Returns completion' \<Rightarrow>
                    (case answer completion' of
                       Throws \<Rightarrow>
                         (Error_response (ascii ''Evaluation failed.'') 500,
                          [completion_request set1])
                     | Returns reply \<Rightarrow> (reply, [completion_request set1])))
           | _ \<Rightarrow> (Error_response (ascii ''Invalid input data.'') 400, []))"
  by (cases b) (simp_all add: POST_def)

lemma POST_invalid:
  assumes "b \<noteq> JNull" and "\<not> well_formed b"
  shows "POST create (Some b) = (Error_response (ascii ''Invalid input data.'') 400, [])"
proof -
  from assms(2) have "\<not> (textual (get_prop b ''outcomes'') \<and> textual (get_prop b ''syllabus'')
      \<and> textual (get_prop b ''set1''))"
    by (simp add: well_formed_def)
  then show ?thesis unfolding POST_not_null [OF assms(1)] by (rule fields_case_invalid)
qed

lemma POST_unreadable_body:
  "POST create None = (Error_response (ascii ''Evaluation failed.'') 500, [])"
  by (simp add: POST_def)

text \<open>
  C9 does not hold of the code for the body \<open>null\<close>: its three fields are missing, but
  destructuring it throws before the validation of lines 15-25 is reached, and the outer
  \<open>catch\<close> answers \<open>Evaluation failed.\<close> with status 500 instead of the validation error.
  The Evaluator is not called there either.
\<close>

theorem POST_null_body:
  "\<not> well_formed JNull
   \<and> POST create (Some JNull) = (Error_response (ascii ''Evaluation failed.'') 500, [])"
  by (simp add: POST_def well_formed_def textual_def get_prop_def)

subsection \<open>Text without an array\<close>

text \<open>
  \<open>JSON.parse\<close> yields an array only from a text that has a \<open>[\<close> and, after it, a \<open>]\<close>:
  the parse ends with the token \<open>]\<close> closing an array frame, and an array frame is only
  opened by the token \<open>[\<close>.
\<close>

lemma complete_Finished:
  "complete v st = Some (Finished w, st') \<Longrightarrow> st = [] \<and> w = v \<and> st' = []"
  by (cases "(v, st)" rule: complete.cases) auto

lemma complete_frames:
  "complete v st = Some (p, st') \<Longrightarrow> list_ex is_array_frame st' \<Longrightarrow> list_ex is_array_frame st"
  by (cases "(v, st)" rule: complete.cases) (auto simp: is_array_frame_def)

lemma begin_value_Finished:
  "begin_value st t = Some (Finished w, st') \<Longrightarrow> t = Atom w"
  by (cases t) (auto simp: begin_value_def dest: complete_Finished)

lemma begin_member_Finished: "begin_member st t \<noteq> Some (Finished w, st')"
  by (auto simp: begin_member_def split: token.splits json.splits list.splits frame.splits option.splits)

lemma step_Finished_array:
  assumes "step (p, st) t = Some (Finished (JArr qs), st')" and "t \<noteq> Atom (JArr qs)"
  shows "t = RBracket \<and> list_ex is_array_frame st"
proof (cases p)
  case ExpectValue
  with assms show ?thesis by (auto dest: begin_value_Finished)
next
  case ExpectValueOrClose
  with assms show ?thesis
    by (cases t) (auto simp: is_array_frame_def dest: begin_value_Finished complete_Finished
        split: list.splits frame.splits)
next
  case ExpectKeyOrClose
  with assms show ?thesis
    by (cases t) (auto simp: begin_member_Finished dest: complete_Finished
        split: list.splits frame.splits option.splits)
next
  case ExpectKey
  with assms show ?thesis by (simp add: begin_member_Finished)
next
  case ExpectColon
  with assms show ?thesis by (cases t) auto
next
  case ExpectCommaOrClose
  with assms show ?thesis
    by (cases t; cases st)
       (auto simp: is_array_frame_def dest: complete_Finished split: frame.splits option.splits)
next
  case (Finished x)
  with assms show ?thesis by simp
qed

lemma begin_value_frames:
  "begin_value st t = Some (p, st') \<Longrightarrow> list_ex is_array_frame st' \<Longrightarrow>
     list_ex is_array_frame st \<or> t = LBracket"
  by (cases t) (auto simp: begin_value_def is_array_frame_def dest: complete_frames)

lemma begin_member_frames:
  "begin_member st t = Some (p, st') \<Longrightarrow> list_ex is_array_frame st' \<Longrightarrow>
     list_ex is_array_frame st"
  by (auto simp: begin_member_def is_array_frame_def
      split: token.splits json.splits list.splits frame.splits option.splits)

lemma step_frames:
  assumes "step (p, st) t = Some (p', st')" and "list_ex is_array_frame st'"
  shows "list_ex is_array_frame st \<or> t = LBracket"
proof (cases p)
  case ExpectValue
  with assms show ?thesis by (auto dest: begin_value_frames)
next
  case ExpectValueOrClose
  with assms show ?thesis
    by (cases t) (auto dest: begin_value_frames complete_frames split: list.splits frame.splits)
next
  case ExpectKeyOrClose
  with assms show ?thesis
    by (cases t) (auto dest: begin_member_frames complete_frames
        split: list.splits frame.splits option.splits)
next
  case ExpectKey
  with assms show ?thesis by (auto dest: begin_member_frames)
next
  case ExpectColon
  with assms show ?thesis by (cases t) auto
next
  case ExpectCommaOrClose
  with assms show ?thesis
    by (cases t; cases st)
       (auto dest: complete_frames split: frame.splits option.splits)
next
  case (Finished x)
  with assms show ?thesis by simp
qed

lemma run_frames:
  "run (p, st) ts = Some (p', st') \<Longrightarrow> list_ex is_array_frame st' \<Longrightarrow>
     list_ex is_array_frame st \<or> LBracket \<in> set ts"
proof (induction ts arbitrary: p st)
  case Nil
  then show ?case by simp
next
  case (Cons t ts)
  from Cons.prems(1) obtain p1 st1 where s: "step (p, st) t = Some (p1, st1)"
    and r: "run (p1, st1) ts = Some (p', st')"
    by (auto split: option.splits)
  from Cons.IH [OF r Cons.prems(2)] have "list_ex is_array_frame st1 \<or> LBracket \<in> set ts" .
  then show ?case using step_frames [OF s] by auto
qed

lemma run_append: 
  "run cfg (xs @ ys) = (case run cfg xs of None \<Rightarrow> None | Some cfg' \<Rightarrow> run cfg' ys)"
  by (induction xs arbitrary: cfg) (auto split: option.splits)

lemma run_Finished_stuck: "run (Finished v, st) ts = Some cfg \<Longrightarrow> ts = []"
  by (cases ts) auto

lemma run_last_step:
  "run (p, st) ts = Some (Finished v, st') \<Longrightarrow> (\<forall>w. p \<noteq> Finished w) \<Longrightarrow>
     \<exists>ts1 t p1 st1. ts = ts1 @ [t] \<and> run (p, st) ts1 = Some (p1, st1)
        \<and> step (p1, st1) t = Some (Finished v, st')"
proof (induction ts arbitrary: p st)
  case Nil
  then show ?case by simp
next
  case (Cons t ts)
  from Cons.prems(1) obtain p1 st1 where s: "step (p, st) t = Some (p1, st1)"
    and r: "run (p1, st1) ts = Some (Finished v, st')"
    by (auto split: option.splits)
  show ?case
  proof (cases "\<exists>w. p1 = Finished w")
    case True
    then obtain w where w: "p1 = Finished w" by blast
    with r have "ts = []" by (auto dest: run_Finished_stuck)
    with r w s have "t # ts = [] @ [t] \<and> run (p, st) [] = Some (p, st)
        \<and> step (p, st) t = Some (Finished v, st')" by simp
    then show ?thesis by blast
  next
    case False
    with Cons.IH [OF r] obtain ts1 u p2 st2 where
      "ts = ts1 @ [u]" "run (p1, st1) ts1 = Some (p2, st2)"
      "step (p2, st2) u = Some (Finished v, st')" by blast
    with s have "t # ts = (t # ts1) @ [u] \<and> run (p, st) (t # ts1) = Some (p2, st2)
        \<and> step (p2, st2) u = Some (Finished v, st')" by simp
    then show ?thesis by blast
  qed
qed

lemma run_array_brackets:
  assumes "run (ExpectValue, []) ts = Some (Finished (JArr qs), st')"
    and "Atom (JArr qs) \<notin> set ts"
  shows "\<exists>xs ys. ts = xs @ LBracket # ys \<and> RBracket \<in> set ys"
proof -
  from run_last_step [OF assms(1)] obtain ts1 t p1 st1 where
    ts: "ts = ts1 @ [t]" and r: "run (ExpectValue, []) ts1 = Some (p1, st1)"
    and s: "step (p1, st1) t = Some (Finished (JArr qs), st')" by auto
  from assms(2) ts have "t \<noteq> Atom (JArr qs)" by auto
  from step_Finished_array [OF s this] have t: "t = RBracket" and f: "list_ex is_array_frame st1"
    by auto
  from run_frames [OF r f] have "LBracket \<in> set ts1" by simp
  then obtain xs ys where "ts1 = xs @ LBracket # ys" by (meson split_list)
  with ts t have "ts = xs @ LBracket # (ys @ [RBracket]) \<and> RBracket \<in> set (ys @ [RBracket])"
    by simp
  then show ?thesis by blast
qed

lemma lex_string_suffix: "lex_string cs = Some (x, rest) \<Longrightarrow> \<exists>p. cs = p @ rest"
proof (induction cs arbitrary: x rest rule: lex_string.induct)
  case 1
  then show ?case by simp
next
  case (2 c cs)
  show ?case
  proof (cases "c = 0x22")
    case True
    with "2.prems" have "c # cs = [c] @ rest" by simp
    then show ?thesis by blast
  next
    case q: False
    show ?thesis
    proof (cases "c = 0x5C")
      case True
      then obtain e es where cs: "cs = e # es" using "2.prems" q by (cases cs) auto
      show ?thesis
      proof (cases "e = 0x75")
        case u: True
        with "2.prems" q True cs obtain v s' where
          "hex4 (take 4 es) = Some v" "lex_string (drop 4 es) = Some (s', rest)"
          by (auto split: option.splits)
        with "2.IH"(1) [OF q True cs u] obtain p where "drop 4 es = p @ rest" by blast
        then have "c # cs = (c # e # take 4 es @ p) @ rest"
          using append_take_drop_id [of 4 es] by (simp add: cs)
        then show ?thesis by blast
      next
        case u: False
        with "2.prems" q True cs obtain v s' where
          v: "unescape e = Some v" and "lex_string es = Some (s', rest)"
          by (auto split: option.splits)
        with "2.IH"(2) [OF q True cs u v] obtain p where "es = p @ rest" by blast
        then have "c # cs = (c # e # p) @ rest" by (simp add: cs)
        then show ?thesis by blast
      qed
    next
      case False
      with "2.prems" q obtain s' where c: "\<not> c < 0x20" and "lex_string cs = Some (s', rest)"
        by (auto split: if_splits)
      with "2.IH"(3) [OF q False c] obtain p where "cs = p @ rest" by blast
      then have "c # cs = (c # p) @ rest" by simp
      then show ?thesis by blast
    qed
  qed
qed

lemma dropWhile_suffix: "\<exists>p. s = p @ dropWhile P s"
  by (metis takeWhile_dropWhile_id)

lemma lex_fraction_suffix: "lex_fraction s = Some (fp, rest) \<Longrightarrow> \<exists>p. s = p @ rest"
proof (cases s)
  case Nil
  assume "lex_fraction s = Some (fp, rest)"
  with Nil show ?thesis by (simp add: lex_fraction_def)
next
  case (Cons c cs)
  assume a: "lex_fraction s = Some (fp, rest)"
  show ?thesis
  proof (cases "c = 0x2E")
    case True
    with a Cons have "rest = dropWhile is_digit cs"
      by (auto simp: lex_fraction_def split: if_splits)
    with dropWhile_suffix [of cs is_digit] obtain p where "cs = p @ rest" by auto
    then have "s = (c # p) @ rest" by (simp add: Cons)
    then show ?thesis by blast
  next
    case False
    with a Cons have "s = [] @ rest" by (auto simp: lex_fraction_def)
    then show ?thesis by blast
  qed
qed

lemma lex_exponent_suffix: "lex_exponent s = Some (ex, rest) \<Longrightarrow> \<exists>p. s = p @ rest"
proof (cases s)
  case Nil
  assume "lex_exponent s = Some (ex, rest)"
  with Nil show ?thesis by (simp add: lex_exponent_def)
next
  case (Cons c cs)
  assume a: "lex_exponent s = Some (ex, rest)"
  show ?thesis
  proof (cases "c = 0x65 \<or> c = 0x45")
    case False
    with a Cons have "s = [] @ rest" by (auto simp: lex_exponent_def)
    then show ?thesis by blast
  next
    case True
    with a Cons obtain ds q where "rest = dropWhile is_digit ds" "cs = q @ ds"
      by (cases cs) (auto simp: lex_exponent_def Let_def split: if_splits)
    moreover obtain p where "ds = p @ dropWhile is_digit ds"
      using dropWhile_suffix [of ds is_digit] by blast
    ultimately have "s = (c # q @ p) @ rest" by (simp add: Cons)
    then show ?thesis by blast
  qed
qed

lemma lex_number_suffix:
  assumes "lex_number s = Some (r, rest)"
  shows "\<exists>p. s = p @ rest \<and> p \<noteq> []" and "r \<noteq> JArr qs"
proof -
  define s1 where "s1 = (case s of [] \<Rightarrow> [] | c # cs \<Rightarrow> if c = 0x2D then cs else s)"
  have "\<exists>q. s = q @ s1" 
  proof (cases s)
    case Nil
    then show ?thesis by (simp add: s1_def)
  next
    case (Cons c cs)
    then have "s = [] @ s1 \<or> s = [c] @ s1" by (simp add: s1_def)
    then show ?thesis by blast
  qed
  then obtain q where q: "s = q @ s1" by blast
  from assms obtain fp s3 ex v where
    ip: "takeWhile is_digit s1 \<noteq> []"
    and f: "lex_fraction (dropWhile is_digit s1) = Some (fp, s3)"
    and e: "lex_exponent s3 = Some (ex, rest)"
    and r: "r = number_value v"
    by (cases s) (auto simp: lex_number_def s1_def Let_def split: if_splits option.splits)
  from r show "r \<noteq> JArr qs" by (simp add: number_value_not_array)
  have "s1 = takeWhile is_digit s1 @ dropWhile is_digit s1" by simp
  moreover obtain p2 where "dropWhile is_digit s1 = p2 @ s3"
    using lex_fraction_suffix [OF f] by blast
  moreover obtain p3 where "s3 = p3 @ rest" using lex_exponent_suffix [OF e] by blast
  ultimately have "s1 = (takeWhile is_digit s1 @ p2 @ p3) @ rest" by simp
  with q have "s = (q @ takeWhile is_digit s1 @ p2 @ p3) @ rest" by simp
  moreover have "q @ takeWhile is_digit s1 @ p2 @ p3 \<noteq> []" using ip by simp
  ultimately show "\<exists>p. s = p @ rest \<and> p \<noteq> []" by blast
qed

lemma tokens_Cons:
  assumes "tokens (c # cs) = Some ts"
  shows "\<exists>p rest. cs = p @ rest \<and>
        ((tokens rest = Some ts \<and> c \<noteq> 0x5B \<and> c \<noteq> 0x5D) \<or>
         (\<exists>t ts'. ts = t # ts' \<and> tokens rest = Some ts' \<and> (\<forall>qs. t \<noteq> Atom (JArr qs))
            \<and> (t = LBracket \<longrightarrow> c = 0x5B \<and> rest = cs) \<and> (t = RBracket \<longrightarrow> c = 0x5D)))"
proof -
  let ?goal = "\<lambda>p rest. cs = p @ rest \<and>
        ((tokens rest = Some ts \<and> c \<noteq> 0x5B \<and> c \<noteq> 0x5D) \<or>
         (\<exists>t ts'. ts = t # ts' \<and> tokens rest = Some ts' \<and> (\<forall>qs. t \<noteq> Atom (JArr qs))
            \<and> (t = LBracket \<longrightarrow> c = 0x5B \<and> rest = cs) \<and> (t = RBracket \<longrightarrow> c = 0x5D)))"
  have punct: "?goal [] cs"
    if "tokens cs = Some ts'" "ts = t # ts'" "\<forall>qs. t \<noteq> Atom (JArr qs)"
       "t = LBracket \<longrightarrow> c = 0x5B" "t = RBracket \<longrightarrow> c = 0x5D" for t ts'
    using that by simp
  consider (space) "c = 0x20 \<or> c = 0x09 \<or> c = 0x0A \<or> c = 0x0D"
    | (lbracket) "c = 0x5B" | (rbracket) "c = 0x5D" | (lbrace) "c = 0x7B"
    | (rbrace) "c = 0x7D" | (comma) "c = 0x2C" | (colon) "c = 0x3A"
    | (quote) "c = 0x22"
    | (number) "c = 0x2D \<or> is_digit c"
    | (word) "\<not> (c = 0x20 \<or> c = 0x09 \<or> c = 0x0A \<or> c = 0x0D)"
        "c \<noteq> 0x5B" "c \<noteq> 0x5D" "c \<noteq> 0x7B" "c \<noteq> 0x7D" "c \<noteq> 0x2C" "c \<noteq> 0x3A"
        "c \<noteq> 0x22" "\<not> (c = 0x2D \<or> is_digit c)"
    by blast
  then show ?thesis
  proof cases
    case space
    with assms have "tokens cs = Some ts" by simp
    moreover from space have "c \<noteq> 0x5B \<and> c \<noteq> 0x5D" by auto
    ultimately have "?goal [] cs" by simp
    then show ?thesis by blast
  next
    case lbracket
    with assms obtain ts' where "tokens cs = Some ts'" "ts = LBracket # ts'" by auto
    from punct [OF this] lbracket show ?thesis by blast
  next
    case rbracket
    with assms obtain ts' where "tokens cs = Some ts'" "ts = RBracket # ts'" by auto
    from punct [OF this] rbracket show ?thesis by blast
  next
    case lbrace
    with assms obtain ts' where "tokens cs = Some ts'" "ts = LBrace # ts'" by auto
    from punct [OF this] show ?thesis by blast
  next
    case rbrace
    with assms obtain ts' where "tokens cs = Some ts'" "ts = RBrace # ts'" by auto
    from punct [OF this] show ?thesis by blast
  next
    case comma
    with assms obtain ts' where "tokens cs = Some ts'" "ts = Comma # ts'" by auto
    from punct [OF this] show ?thesis by blast
  next
    case colon
    with assms obtain ts' where "tokens cs = Some ts'" "ts = Colon # ts'" by auto
    from punct [OF this] show ?thesis by blast
  next
    case quote
    with assms obtain x rest ts' where l: "lex_string cs = Some (x, rest)"
      and t: "tokens rest = Some ts'" and ts: "ts = Atom (JStr x) # ts'"
      by (auto split: option.splits)
    from lex_string_suffix [OF l] obtain p where "cs = p @ rest" by blast
    with t ts have "?goal p rest" by simp
    then show ?thesis by blast
  next
    case number
    then have c: "c \<noteq> 0x20" "c \<noteq> 0x09" "c \<noteq> 0x0A" "c \<noteq> 0x0D" "c \<noteq> 0x5B" "c \<noteq> 0x5D"
      "c \<noteq> 0x7B" "c \<noteq> 0x7D" "c \<noteq> 0x2C" "c \<noteq> 0x3A" "c \<noteq> 0x22"
      by (auto simp: is_digit_def)
    have "tokens (c # cs) = (case lex_number (c # cs) of
           None \<Rightarrow> None
         | Some (number, rest) \<Rightarrow> map_option (Cons (Atom number)) (tokens rest))"
      using c number by simp
    then have "(case lex_number (c # cs) of
           None \<Rightarrow> None
         | Some (number, rest) \<Rightarrow> map_option (Cons (Atom number)) (tokens rest)) = Some ts"
      using assms by (simp only:)
    then obtain r rest ts' where l: "lex_number (c # cs) = Some (r, rest)"
      and t: "tokens rest = Some ts'" and ts: "ts = Atom r # ts'"
      by (auto split: option.splits)
    from lex_number_suffix(1) [OF l] obtain p where p: "c # cs = p @ rest" "p \<noteq> []" by blast
    then obtain p' where "cs = p' @ rest" by (cases p) auto
    with t ts lex_number_suffix(2) [OF l] have "?goal p' rest" by simp
    then show ?thesis by blast
  next
    case word
    with assms consider
      (t) ts' where "tokens (drop 3 cs) = Some ts'" "ts = Atom (JBool True) # ts'"
      | (f) ts' where "tokens (drop 4 cs) = Some ts'" "ts = Atom (JBool False) # ts'"
      | (n) ts' where "tokens (drop 3 cs) = Some ts'" "ts = Atom JNull # ts'"
      by (auto split: if_splits)
    then show ?thesis
    proof cases
      case t
      then have "?goal (take 3 cs) (drop 3 cs)" by simp
      then show ?thesis by blast
    next
      case f
      then have "?goal (take 4 cs) (drop 4 cs)" by simp
      then show ?thesis by blast
    next
      case n
      then have "?goal (take 3 cs) (drop 3 cs)" by simp
      then show ?thesis by blast
    qed
  qed
qed

lemma tokens_no_array_atom: "tokens s = Some ts \<Longrightarrow> Atom (JArr qs) \<notin> set ts"
proof (induction s arbitrary: ts rule: length_induct)
  case (1 s)
  show ?case
  proof (cases s)
    case Nil
    with "1.prems" show ?thesis by simp
  next
    case (Cons c cs)
    with "1.prems" tokens_Cons [of c cs ts] obtain p rest where cs: "cs = p @ rest"
      and d: "(tokens rest = Some ts) \<or>
         (\<exists>t ts'. ts = t # ts' \<and> tokens rest = Some ts' \<and> (\<forall>qs. t \<noteq> Atom (JArr qs)))"
      by blast
    have less: "length rest < length s" by (simp add: Cons cs)
    from d show ?thesis
    proof
      assume "tokens rest = Some ts"
      with "1.IH" less show ?thesis by blast
    next
      assume "\<exists>t ts'. ts = t # ts' \<and> tokens rest = Some ts' \<and> (\<forall>qs. t \<noteq> Atom (JArr qs))"
      then obtain t ts' where t: "ts = t # ts'" "tokens rest = Some ts'" "\<forall>qs. t \<noteq> Atom (JArr qs)"
        by blast
      with "1.IH" less have "Atom (JArr qs) \<notin> set ts'" by blast
      with t show ?thesis by auto
    qed
  qed
qed

lemma tokens_RBracket: "tokens s = Some ts \<Longrightarrow> RBracket \<in> set ts \<Longrightarrow> 0x5D \<in> set s"
proof (induction s arbitrary: ts rule: length_induct)
  case (1 s)
  show ?case
  proof (cases s)
    case Nil
    with "1.prems" show ?thesis by simp
  next
    case (Cons c cs)
    with "1.prems" tokens_Cons [of c cs ts] obtain p rest where cs: "cs = p @ rest"
      and d: "(tokens rest = Some ts) \<or>
         (\<exists>t ts'. ts = t # ts' \<and> tokens rest = Some ts' \<and> (t = RBracket \<longrightarrow> c = 0x5D))"
      by blast
    have less: "length rest < length s" by (simp add: Cons cs)
    from d show ?thesis
    proof
      assume "tokens rest = Some ts"
      with "1.IH" less "1.prems"(2) have "0x5D \<in> set rest" by blast
      then show ?thesis by (simp add: Cons cs)
    next
      assume "\<exists>t ts'. ts = t # ts' \<and> tokens rest = Some ts' \<and> (t = RBracket \<longrightarrow> c = 0x5D)"
      then obtain t ts' where t: "ts = t # ts'" "tokens rest = Some ts'" "t = RBracket \<longrightarrow> c = 0x5D"
        by blast
      show ?thesis
      proof (cases "t = RBracket")
        case True
        with t show ?thesis by (simp add: Cons)
      next
        case False
        with t "1.prems"(2) have "RBracket \<in> set ts'" by simp
        with "1.IH" less t(2) have "0x5D \<in> set rest" by blast
        then show ?thesis by (simp add: Cons cs)
      qed
    qed
  qed
qed

lemma tokens_LBracket:
  "tokens s = Some (xs @ LBracket # ys) \<Longrightarrow>
     \<exists>pre rest. s = pre @ 0x5B # rest \<and> tokens rest = Some ys"
proof (induction s arbitrary: xs rule: length_induct)
  case (1 s)
  show ?case
  proof (cases s)
    case Nil
    with "1.prems" show ?thesis by simp
  next
    case (Cons c cs)
    with "1.prems" tokens_Cons [of c cs "xs @ LBracket # ys"] obtain p rest where cs: "cs = p @ rest"
      and d: "(tokens rest = Some (xs @ LBracket # ys)) \<or>
         (\<exists>t ts'. xs @ LBracket # ys = t # ts' \<and> tokens rest = Some ts'
             \<and> (t = LBracket \<longrightarrow> c = 0x5B \<and> rest = cs))"
      by blast
    have less: "length rest < length s" by (simp add: Cons cs)
    have deeper: "\<exists>pre rest'. s = pre @ 0x5B # rest' \<and> tokens rest' = Some ys"
      if "tokens rest = Some (zs @ LBracket # ys)" for zs
    proof -
      from "1.IH" less that obtain pre rest' where "rest = pre @ 0x5B # rest'"
        "tokens rest' = Some ys" by blast
      then have "s = (c # p @ pre) @ 0x5B # rest' \<and> tokens rest' = Some ys"
        by (simp add: Cons cs)
      then show ?thesis by blast
    qed
    from d show ?thesis
    proof
      assume "tokens rest = Some (xs @ LBracket # ys)"
      then show ?thesis by (rule deeper)
    next
      assume "\<exists>t ts'. xs @ LBracket # ys = t # ts' \<and> tokens rest = Some ts'
             \<and> (t = LBracket \<longrightarrow> c = 0x5B \<and> rest = cs)"
      then obtain t ts' where t: "xs @ LBracket # ys = t # ts'" "tokens rest = Some ts'"
        "t = LBracket \<longrightarrow> c = 0x5B \<and> rest = cs" by blast
      show ?thesis
      proof (cases xs)
        case Nil
        with t have "s = [] @ 0x5B # cs \<and> tokens cs = Some ys" by (simp add: Cons)
        then show ?thesis by blast
      next
        case (Cons x xs')
        with t have "tokens rest = Some (xs' @ LBracket # ys)" by simp
        then show ?thesis by (rule deeper)
      qed
    qed
  qed
qed

lemma JSON_parse_array_brackets:
  assumes "JSON_parse s = Some (JArr qs)"
  shows "\<exists>pre mid post. s = pre @ [0x5B] @ mid @ [0x5D] @ post"
proof -
  from assms obtain ts st where ts: "tokens s = Some ts"
    and r: "run (ExpectValue, []) ts = Some (Finished (JArr qs), st)"
    by (auto simp: JSON_parse_def split: option.splits pstate.splits list.splits)
  from run_array_brackets [OF r tokens_no_array_atom [OF ts]] obtain xs ys where
    xs: "ts = xs @ LBracket # ys" and rb: "RBracket \<in> set ys" by blast
  from tokens_LBracket [OF ts [unfolded xs]] obtain pre rest where
    s: "s = pre @ 0x5B # rest" and ys: "tokens rest = Some ys" by blast
  from tokens_RBracket [OF ys rb] obtain mid post where "rest = mid @ 0x5D # post"
    by (meson split_list)
  with s have "s = pre @ [0x5B] @ mid @ [0x5D] @ post" by simp
  then show ?thesis by blast
qed

lemma extract_array_empty_object: "extract_array (ascii ''{}'') = ascii ''{}''"
  by (simp add: extract_array_def strip_fences_def trim_def is_space_def ascii_def
      fence_at_def fence_json_at_def)

lemma JSON_parse_empty_object: "JSON_parse (ascii ''{}'') = Some (JObj [])"
  by (simp add: JSON_parse_def ascii_def begin_value_def)

text \<open>
  C8, as the claim states it, fails on its last part. The extractor of lines 72-78 does
  leave a text without a bracketed substring as it is, but the handler does not always
  answer such a text with the parse failure. The empty text has no bracketed substring,
  yet line 71 takes \<open>"[]"\<close> in its place before the extractor runs, and the caller gets
  the report of an empty evaluation. The text \<open>{}\<close> has no bracketed substring either; it
  is valid JSON, so the parser stage lets it through and the caller gets the generic
  failure of the outer \<open>catch\<close>, not the parse failure.
\<close>

theorem text_without_array_not_parse_failure:
  "strip_fences [] = [] \<and> extract_array [] = []
   \<and> POST (\<lambda>request. Returns (Some \<lparr> choices = Some [\<lparr> message = Some \<lparr> content = Some [] \<rparr> \<rparr>] \<rparr>))
        (Some (submission (ascii ''CO1'') (ascii ''Unit 1'') (ascii ''What is 2+2?'')))
     = (Report_response (aggregate []), [completion_request (ascii ''What is 2+2?'')])
   \<and> strip_fences (ascii ''{}'') = ascii ''{}'' \<and> extract_array (ascii ''{}'') = ascii ''{}''
   \<and> JSON_parse (ascii ''{}'') = Some (JObj [])
   \<and> POST (\<lambda>request. Returns (Some \<lparr> choices = Some [\<lparr> message = Some \<lparr> content = Some (ascii ''{}'') \<rparr> \<rparr>] \<rparr>))
        (Some (submission (ascii ''CO1'') (ascii ''Unit 1'') (ascii ''What is 2+2?'')))
     = (Error_response (ascii ''Evaluation failed.'') 500,
        [completion_request (ascii ''What is 2+2?'')])"
proof -
  have a: "strip_fences [] = []" "extract_array [] = []"
    by (simp_all add: extract_array_def strip_fences_def trim_def)
  have b: "strip_fences (ascii ''{}'') = ascii ''{}''"
    by (simp add: strip_fences_def trim_def is_space_def ascii_def fence_at_def
        fence_json_at_def)
  have "ascii ''{}'' \<noteq> []" by (simp add: ascii_def)
  then have "answer (Some \<lparr> choices = Some [\<lparr> message = Some \<lparr> content = Some (ascii ''{}'') \<rparr> \<rparr>] \<rparr>)
      = Throws"
    by (simp add: answer_message parse_evaluations_def extract_array_empty_object
        JSON_parse_empty_object summarize_def)
  then show ?thesis
    by (simp add: a b POST_submission answer_default extract_array_empty_object
        JSON_parse_empty_object)
qed

text \<open>
  C8, amended. When the text left after removing the fence markers and trimming contains
  no bracketed substring, the extractor returns that text unchanged; in particular it
  does not return \<open>[]\<close>, and the text does not parse to an array. When the Evaluator's
  content is such a text and is not empty, the handler answers with a failure of status
  500, never with a report: the parse failure when \<open>JSON.parse\<close> rejects the text, and the
  generic failure \<open>Evaluation failed.\<close> when the text is valid JSON of another kind.
\<close>

theorem extract_array_unchanged:
  "\<not> (\<exists>pre mid post. strip_fences raw = pre @ [0x5B] @ mid @ [0x5D] @ post) \<Longrightarrow>
     extract_array raw = strip_fences raw \<and> extract_array raw \<noteq> ascii ''[]''
     \<and> (\<forall>qs. JSON_parse (extract_array raw) \<noteq> Some (JArr qs))
     \<and> (raw \<noteq> []
          \<and> create (completion_request set1)
              = Returns (Some \<lparr> choices = Some (\<lparr> message = Some \<lparr> content = Some raw \<rparr> \<rparr> # others) \<rparr>)
          \<longrightarrow>
          POST create (Some (submission outcomes syllabus set1))
            = (Error_response
                 (if JSON_parse (strip_fences raw) = None
                  then ascii ''AI response could not be parsed.''
                  else ascii ''Evaluation failed.'') 500,
               [completion_request set1]))"
proof -
  assume no: "\<not> (\<exists>pre mid post. strip_fences raw = pre @ [0x5B] @ mid @ [0x5D] @ post)"
  then have e: "extract_array raw = strip_fences raw" by (rule extract_array_not_found)
  have "strip_fences raw \<noteq> ascii ''[]''"
  proof
    assume "strip_fences raw = ascii ''[]''"
    then have "strip_fences raw = [] @ [0x5B] @ [] @ [0x5D] @ []" by (simp add: ascii_def)
    with no show False by blast
  qed
  with e have a: "extract_array raw \<noteq> ascii ''[]''" by simp
  have p: "\<forall>qs. JSON_parse (extract_array raw) \<noteq> Some (JArr qs)"
    using JSON_parse_array_brackets [of "extract_array raw"] no unfolding e by blast
  have "POST create (Some (submission outcomes syllabus set1))
            = (Error_response
                 (if JSON_parse (strip_fences raw) = None
                  then ascii ''AI response could not be parsed.''
                  else ascii ''Evaluation failed.'') 500,
               [completion_request set1])"
    if t: "raw \<noteq> []" and c: "create (completion_request set1)
              = Returns (Some \<lparr> choices = Some (\<lparr> message = Some \<lparr> content = Some raw \<rparr> \<rparr> # others) \<rparr>)"
  proof (cases "JSON_parse (extract_array raw)")
    case None
    then have "parse_evaluations (extract_array raw)
        = Inl (Error_response (ascii ''AI response could not be parsed.'') 500)"
      by (simp add: parse_evaluations_def)
    then show ?thesis using c t None by (simp add: POST_submission answer_message e)
  next
    case (Some v)
    then have "parse_evaluations (extract_array raw) = Inr v"
      by (simp add: parse_evaluations_def)
    moreover from Some p have "summarize v = Throws" by (simp add: summarize_not_array)
    ultimately show ?thesis using c t Some by (simp add: POST_submission answer_message e)
  qed
  with e a p show ?thesis by blast
qed

lemma no_bracket_no_array:
  "(0x5B :: code_unit) \<notin> set s \<Longrightarrow> \<not> (\<exists>pre mid post. s = pre @ [0x5B] @ mid @ [0x5D] @ post)"
  by auto

theorem extract_array_unchanged_witness:
  "extract_array ([0x60, 0x60, 0x60] @ ascii ''I cannot rate this. '' @ [0x60, 0x60, 0x60])
     = ascii ''I cannot rate this.''
   \<and> POST (\<lambda>request. Returns (Some \<lparr> choices = Some [\<lparr> message = Some \<lparr> content =
            Some ([0x60, 0x60, 0x60] @ ascii ''I cannot rate this. '' @ [0x60, 0x60, 0x60]) \<rparr> \<rparr>] \<rparr>))
        (Some (submission (ascii ''CO1'') (ascii ''Unit 1'') (ascii ''What is 2+2?'')))
     = (Error_response (ascii ''AI response could not be parsed.'') 500,
        [completion_request (ascii ''What is 2+2?'')])"
proof -
  define raw where "raw = [0x60, 0x60, 0x60] @ ascii ''I cannot rate this. '' @ [0x60, 0x60, 0x60]"
  have s: "strip_fences raw = ascii ''I cannot rate this.''"
    by (simp add: raw_def strip_fences_def trim_def is_space_def ascii_def fence_at_def
        fence_json_at_def)
  have no: "\<not> (\<exists>pre mid post. strip_fences raw = pre @ [0x5B] @ mid @ [0x5D] @ post)"
    unfolding s by (rule no_bracket_no_array) (simp add: ascii_def)
  have t: "raw \<noteq> []" by (simp add: raw_def)
  have c: "(\<lambda>request. Returns (Some \<lparr> choices = Some [\<lparr> message = Some \<lparr> content = Some raw \<rparr> \<rparr>] \<rparr>))
        (completion_request (ascii ''What is 2+2?''))
      = Returns (Some \<lparr> choices = Some (\<lparr> message = Some \<lparr> content = Some raw \<rparr> \<rparr> # []) \<rparr>)"
    by simp
  have n: "JSON_parse (ascii ''I cannot rate this.'') = None"
    by (simp add: JSON_parse_def ascii_def is_digit_def)
  from extract_array_unchanged [OF no, of "\<lambda>request. Returns (Some \<lparr> choices = Some [\<lparr> message = Some \<lparr> content = Some raw \<rparr> \<rparr>] \<rparr>)"
      "ascii ''What is 2+2?''" "[]" "ascii ''CO1''" "ascii ''Unit 1''"] t c
  have e: "extract_array raw = strip_fences raw"
    and r: "POST (\<lambda>request. Returns (Some \<lparr> choices = Some [\<lparr> message = Some \<lparr> content = Some raw \<rparr> \<rparr>] \<rparr>))
        (Some (submission (ascii ''CO1'') (ascii ''Unit 1'') (ascii ''What is 2+2?'')))
     = (Error_response (ascii ''AI response could not be parsed.'') 500,
        [completion_request (ascii ''What is 2+2?'')])"
    by (simp_all add: s n)
  with s show ?thesis unfolding raw_def by simp
qed


subsection \<open>The end-to-end scenario of the specification\<close>

text \<open>
  The block \<^verbatim>\<open>What is 2+2?\n\nExplain photosynthesis.\<close> gives two questions and the user
  prompt \<^verbatim>\<open>1. What is 2+2?\n2. Explain photosynthesis.\<close>; every report has seven metrics,
  in the order Spelling, Grammar, Clarity, Bloom Level, Higher Order, CO Match, Syllabus
  Match, and the two fixed strings.
\<close>

lemma scenario_questions:
  "questions (ascii ''What is 2+2?'' @ [0x0A, 0x0A] @ ascii ''Explain photosynthesis.'')
   = [ascii ''What is 2+2?'', ascii ''Explain photosynthesis.'']"
  by (simp add: questions_def ascii_def blank_line_at_def trim_def is_space_def
      sanitize_def replace_units_def)

lemma scenario_userPrompt:
  "userPrompt [ascii ''What is 2+2?'', ascii ''Explain photosynthesis.'']
   = ascii ''1. What is 2+2?'' @ [0x0A] @ ascii ''2. Explain photosynthesis.''"
  by (simp add: userPrompt_def decimal_small ascii_def)

lemma report_shape:
  "map label (metrics (aggregate evs))
     = map ascii [''Spelling'', ''Grammar'', ''Clarity'', ''Bloom Level'', ''Higher Order'',
                  ''CO Match'', ''Syllabus Match'']
   \<and> length (metrics (aggregate evs)) = 7
   \<and> score (metrics (aggregate evs) ! 5) = Number (Num 70)
   \<and> score (metrics (aggregate evs) ! 6) = Number (Num 75)
   \<and> unitCoverage (aggregate evs) = ascii ''3 / 5''
   \<and> difficulty (aggregate evs) = ascii ''Medium''
   \<and> evaluations (aggregate evs) = evs"
  by (simp add: aggregate_def Let_def)

end
